theory Spec2Isabelle
  imports Main "HOL-Library.Sublist" "HOL-Library.AList"
begin

section \<open>JavaScript values\<close>

text \<open>
  The hook is generic in the filter type (\<open>TFilters extends {}\<close>), the data type and the
  variants type. All of them are JavaScript values; they are modelled by one datatype.
  Numbers are integers (no fractions, no NaN). An object is the list of its own fields in
  insertion order.
\<close>

datatype jsval =
    JUndefined
  | JNull
  | JBool bool
  | JNum int
  | JStr string
  | JArr "jsval list"
  | JObj "(string \<times> jsval) list"

text \<open>\<open>!v\<close> is true exactly for the falsy values.\<close>

fun truthy :: "jsval \<Rightarrow> bool" where
  "truthy JUndefined = False"
| "truthy JNull = False"
| "truthy (JBool b) = b"
| "truthy (JNum n) = (n \<noteq> 0)"
| "truthy (JStr s) = (s \<noteq> [])"
| "truthy (JArr xs) = True"
| "truthy (JObj fs) = True"

text \<open>\<open>a ?? b\<close>: the right operand is taken only when the left one is null or undefined.\<close>

definition nullish :: "jsval \<Rightarrow> bool" where
  "nullish v = (v = JUndefined \<or> v = JNull)"

definition nullish_coalesce :: "jsval \<Rightarrow> jsval \<Rightarrow> jsval" where
  "nullish_coalesce a b = (if nullish a then b else a)"

text \<open>
  The outcome of an awaited promise: \<open>Inl e\<close> when it rejects with \<open>e\<close>, \<open>Inr v\<close> when it
  resolves with \<open>v\<close>.
\<close>

type_synonym promise = "jsval + jsval"

section \<open>The collaborators: router, query cache, event trace\<close>

text \<open>
  Modelled from the spec: the routing collaborator (\<open>useRouter()\<close> of next/router, not
  part of the repository), with the three fields the hook reads. \<open>query\<close> is a
  \<open>ParsedUrlQuery\<close>, a dictionary. A call of \<open>router.replace\<close> is recorded in the trace
  below; the fields are what the router hands to an evaluation of the hook.
\<close>

record router =
  isReady :: bool
  asPath :: string
  query :: "(string \<times> jsval) list"

text \<open>A query key is an array of values (\<open>QueryKey = readonly unknown[]\<close>).\<close>

type_synonym qkey = "jsval list"

datatype query_status = Loading | Failed | Success

record query_state =
  q_data :: jsval
  q_error :: jsval
  q_status :: query_status
  q_isInvalidated :: bool

text \<open>
  What \<open>router.replace\<close> is called with: the tsx variant passes a URL object
  (\<open>{pathname, query}\<close>), the service variant passes the URL string (as \<open>url\<close> and as
  \<open>as\<close>) with the option \<open>{scroll: false}\<close>.
\<close>

datatype nav_target =
    UrlObject string jsval
  | UrlString string string bool

text \<open>
  Everything the hook does to the outside is recorded in order: a call of the caller's
  \<open>setFiltersValues\<close>, a call of \<open>queryClient.invalidateQueries\<close>, a run of a query function
  for a key (with the promise it returned), a call of \<open>router.replace\<close>. \<open>PageReload\<close> stands for a navigation that leaves
  the single-page application (an assignment to \<open>window.location\<close>); it is in the datatype
  so that its absence from a trace can be stated.
\<close>

datatype event =
    PersistCall jsval
  | InvalidateCall qkey
  | FetchCall qkey promise
  | RouterReplace nav_target
  | PageReload

record world =
  cache :: "qkey \<rightharpoonup> query_state"
  router :: router
  trace :: "event list"

text \<open>The values passed to \<open>setFiltersValues\<close> and the targets of \<open>router.replace\<close>, in order.\<close>

definition persisted :: "event list \<Rightarrow> jsval list" where
  "persisted es = concat (map (\<lambda>e. case e of PersistCall v \<Rightarrow> [v] | _ \<Rightarrow> []) es)"

definition navigations :: "event list \<Rightarrow> nav_target list" where
  "navigations es = concat (map (\<lambda>e. case e of RouterReplace t \<Rightarrow> [t] | _ \<Rightarrow> []) es)"

subsection \<open>The query cache of @tanstack/react-query\<close>

text \<open>
  Modelled from the spec: the caching collaborator (the query client of
  @tanstack/react-query, not part of the repository), with its default options.
  Invalidation targets a key prefix: \<open>queryClient.invalidateQueries(key)\<close> matches a
  cached query when \<open>key\<close> partially matches the query's key (\<open>partialDeepEqual\<close> of the
  library, which compares segment by segment): equal values match, values
  of different \<open>typeof\<close> do not, and two objects (arrays are objects whose field names are
  their indices) match when every own field of the second matches the field of the same
  name of the first, a missing field reading as \<open>undefined\<close>.
\<close>

definition show_digit :: "nat \<Rightarrow> char" where
  "show_digit n = char_of (48 + n)"

fun show_nat :: "nat \<Rightarrow> string" where
  "show_nat n = (if n < 10 then [show_digit n] else show_nat (n div 10) @ [show_digit (n mod 10)])"

text \<open>
  The own enumerable fields of a value (\<open>Object.keys\<close> with the values): the fields of an
  object, the elements of an array under their indices, the characters of a string
  under their indices, none for the other values.
\<close>

definition own_fields :: "jsval \<Rightarrow> (string \<times> jsval) list" where
  "own_fields v =
     (case v of
        JObj fs \<Rightarrow> fs
      | JArr xs \<Rightarrow> zip (map show_nat [0..<length xs]) xs
      | JStr s \<Rightarrow> zip (map show_nat [0..<length s]) (map (\<lambda>c. JStr [c]) s)
      | _ \<Rightarrow> [])"

definition get_field :: "jsval \<Rightarrow> string \<Rightarrow> jsval" where
  "get_field v k = (case map_of (own_fields v) k of None \<Rightarrow> JUndefined | Some x \<Rightarrow> x)"

definition is_object :: "jsval \<Rightarrow> bool" where
  "is_object v = (case v of JObj _ \<Rightarrow> True | JArr _ \<Rightarrow> True | _ \<Rightarrow> False)"

function partialDeepEqual :: "jsval \<Rightarrow> jsval \<Rightarrow> bool" where
  "partialDeepEqual a b =
     (if a = b then True
      else if is_object a \<and> is_object b
      then list_all (\<lambda>kx. partialDeepEqual (get_field a (fst kx)) (snd kx)) (own_fields b)
      else False)"
  by pat_completeness auto
termination
proof (relation "measure (\<lambda>(a, b). size b)")
  show "wf (measure (\<lambda>(a, b). size b))" by simp
next
  fix a b :: jsval and kx :: "string \<times> jsval"
  assume o: "is_object a \<and> is_object b" and m: "kx \<in> set (own_fields b)"
  have "size (snd kx) < size b"
  proof (cases b)
    case (JArr xs)
    from JArr m have "snd kx \<in> set xs"
      by (cases kx) (auto simp: own_fields_def dest: set_zip_rightD)
    then have "size (snd kx) \<le> size_list size xs" by (simp add: size_list_estimation')
    with JArr show ?thesis by simp
  next
    case (JObj fs)
    from JObj m have m': "kx \<in> set fs" by (simp add: own_fields_def)
    have "size_prod (\<lambda>_. 0) size kx \<le> size_list (size_prod (\<lambda>_. 0) size) fs"
      using m' by (rule size_list_estimation') simp
    with JObj show ?thesis by (cases kx) simp
  qed (use o in \<open>simp_all add: is_object_def\<close>)
  then show "((get_field a (fst kx), snd kx), a, b) \<in> measure (\<lambda>(a, b). size b)" by simp
qed

text \<open>
  A segment that is a string, a number or a boolean: for such segments a partial match
  is equality.
\<close>

definition primitive :: "jsval \<Rightarrow> bool" where
  "primitive v = (case v of JStr _ \<Rightarrow> True | JNum _ \<Rightarrow> True | JBool _ \<Rightarrow> True | _ \<Rightarrow> False)"

definition partialMatchKey :: "qkey \<Rightarrow> qkey \<Rightarrow> bool" where
  "partialMatchKey a b = partialDeepEqual (JArr a) (JArr b)"

text \<open>
  \<open>invalidateQueries(key)\<close> marks every matching query as invalidated. (The library then
  refetches the matching queries that are being observed; the returned promise settles
  when they have, and never rejects.)
\<close>

definition invalidateQueries :: "qkey \<Rightarrow> world \<Rightarrow> world" where
  "invalidateQueries key w =
     w\<lparr>cache := (\<lambda>k. case cache w k of
                       None \<Rightarrow> None
                     | Some q \<Rightarrow> Some (if partialMatchKey k key then q\<lparr>q_isInvalidated := True\<rparr> else q)),
       trace := trace w @ [InvalidateCall key]\<rparr>"

text \<open>
  Modelled from the spec: \<open>useMutation\<close> of the caching collaborator and its result
  object. \<open>mutate\<close> runs the mutation function once (the hook passes no \<open>retry\<close>
  option, and the library's default for mutations is no retry);
  when its promise resolves, \<open>onSuccess\<close> is awaited and the result is in state success;
  when it rejects, \<open>onSuccess\<close> is not called and the reason is the result's \<open>error\<close>.
\<close>

datatype mutation_status = MIdle | MLoading | MError | MSuccess

record mutation_result =
  m_status :: mutation_status
  m_data :: jsval
  m_error :: jsval

definition mutate ::
  "('v \<Rightarrow> world \<Rightarrow> promise \<times> world) \<Rightarrow> (jsval \<Rightarrow> world \<Rightarrow> world) \<Rightarrow> 'v \<Rightarrow> world
     \<Rightarrow> mutation_result \<times> world" where
  "mutate mutationFn onSuccess variables w =
     (case mutationFn variables w of
        (Inl e, w1) \<Rightarrow> (\<lparr>m_status = MError, m_data = JUndefined, m_error = e\<rparr>, w1)
      | (Inr d, w1) \<Rightarrow> (\<lparr>m_status = MSuccess, m_data = d, m_error = JNull\<rparr>, onSuccess d w1))"

section \<open>The hook \<open>useFilters\<close> (src/filters_manager.tsx)\<close>

text \<open>
  The hook's parameters. The key is a \<open>QueryKey\<close> in the tsx variant and a string in the
  service variant, so its type is a parameter. A caller-supplied asynchronous function is
  a function to the outcome of its promise. \<open>valuesOptions\<close> is passed through to the
  library and is left out.
\<close>

record 'k props =
  filtersKey :: 'k
  initialFilters :: jsval
  getData :: "jsval \<Rightarrow> promise"
  queryParser :: "(string \<times> jsval) list \<Rightarrow> jsval"
  getFiltersValues :: "unit \<Rightarrow> promise"
  setFiltersValues :: "jsval \<Rightarrow> promise"
  queryTransformer :: "(jsval \<Rightarrow> jsval) option"
  getAppliedFiltersCount :: "(jsval \<Rightarrow> int) option"
  getVariants :: "(unit \<Rightarrow> promise) option"

text \<open>
  \<open>router.asPath.replace(/\?.+/, '')\<close>: the first \<open>?\<close> that is followed by a character
  other than a line terminator is removed together with the characters up to the next
  line terminator (or the end). Strings are byte strings here, so the line terminators
  are line feed and carriage return.
\<close>

definition line_terminator :: "char \<Rightarrow> bool" where
  "line_terminator c = (c = CHR 0x0A \<or> c = CHR 0x0D)"

fun strip_query :: "string \<Rightarrow> string" where
  "strip_query [] = []"
| "strip_query (c # cs) =
     (if c = CHR ''?'' \<and> cs \<noteq> [] \<and> \<not> line_terminator (hd cs)
      then dropWhile (\<lambda>x. \<not> line_terminator x) cs
      else c # strip_query cs)"

definition handleSetFiltersInUrl :: "'k props \<Rightarrow> jsval \<Rightarrow> world \<Rightarrow> world" where
  "handleSetFiltersInUrl p d w =
     (if \<not> isReady (router w) \<or> \<not> truthy d then w
      else
        let transformedData = (case queryTransformer p of Some t \<Rightarrow> t d | None \<Rightarrow> d)
        in w\<lparr>trace := trace w @
               [RouterReplace (UrlObject (strip_query (asPath (router w))) transformedData)]\<rparr>)"

text \<open>Calling the caller's \<open>setFiltersValues\<close>: the call is recorded, its promise returned.\<close>

definition call_setFiltersValues :: "'k props \<Rightarrow> jsval \<Rightarrow> world \<Rightarrow> promise \<times> world" where
  "call_setFiltersValues p d w = (setFiltersValues p d, w\<lparr>trace := trace w @ [PersistCall d]\<rparr>)"

definition filtersPrefix :: "qkey props \<Rightarrow> qkey" where
  "filtersPrefix p = filtersKey p @ [JStr ''filters'']"

definition setFilters_onSuccess :: "qkey props \<Rightarrow> jsval \<Rightarrow> world \<Rightarrow> world" where
  "setFilters_onSuccess p d w = handleSetFiltersInUrl p d (invalidateQueries (filtersPrefix p) w)"

definition setFilters :: "qkey props \<Rightarrow> jsval \<Rightarrow> world \<Rightarrow> mutation_result \<times> world" where
  "setFilters p = mutate (call_setFiltersValues p) (setFilters_onSuccess p)"

definition resetFilters_onSuccess :: "qkey props \<Rightarrow> jsval \<Rightarrow> world \<Rightarrow> world" where
  "resetFilters_onSuccess p d w = handleSetFiltersInUrl p d (invalidateQueries (filtersPrefix p) w)"

definition resetFilters ::
  "qkey props \<Rightarrow> (jsval \<Rightarrow> jsval) option \<Rightarrow> world \<Rightarrow> mutation_result \<times> world" where
  "resetFilters p =
     mutate
       (\<lambda>callback. call_setFiltersValues p
          (case callback of Some f \<Rightarrow> f (initialFilters p) | None \<Rightarrow> initialFilters p))
       (resetFilters_onSuccess p)"

text \<open>
  The reset operation in the words of the specification: the target is the transform
  applied to the initial filters when a transform is supplied, the initial filters
  otherwise, and the rest is the write operation on that target.
\<close>

definition resetFilters_spec ::
  "qkey props \<Rightarrow> (jsval \<Rightarrow> jsval) option \<Rightarrow> world \<Rightarrow> mutation_result \<times> world" where
  "resetFilters_spec p transform w =
     setFilters p (case transform of Some f \<Rightarrow> f (initialFilters p) | None \<Rightarrow> initialFilters p) w"


subsection \<open>The three queries\<close>

text \<open>
  Modelled from the spec: a query of the caching collaborator (\<open>CachedQueryState\<close>) and
  \<open>useQuery\<close>. A new query starts from \<open>initialData\<close>: with data it is in state
  success, without it is loading. When the query function's promise resolves the data is
  stored (a query function must not resolve to \<open>undefined\<close>: the library makes that an
  error); when it rejects the error is stored and the data kept.
\<close>

definition build_query :: "jsval \<Rightarrow> query_state" where
  "build_query initialData =
     \<lparr>q_data = initialData, q_error = JNull,
      q_status = (if initialData \<noteq> JUndefined then Success else Loading),
      q_isInvalidated = False\<rparr>"

definition settle_query :: "promise \<Rightarrow> query_state \<Rightarrow> query_state" where
  "settle_query outcome q =
     (case outcome of
        Inl e \<Rightarrow> q\<lparr>q_error := e, q_status := Failed\<rparr>
      | Inr d \<Rightarrow>
          if d = JUndefined then q\<lparr>q_error := JStr ''undefined'', q_status := Failed\<rparr>
          else \<lparr>q_data = d, q_error = JNull, q_status = Success, q_isInvalidated = False\<rparr>)"

text \<open>What \<open>useQuery\<close> returns: \<open>select\<close> is applied to the query's data when there is data.\<close>

record query_result =
  r_data :: jsval
  r_error :: jsval
  r_status :: query_status

definition createResult :: "(jsval \<Rightarrow> jsval) \<Rightarrow> query_state \<Rightarrow> query_result" where
  "createResult select q =
     \<lparr>r_data = (if q_data q \<noteq> JUndefined then select (q_data q) else JUndefined),
      r_error = q_error q,
      r_status = q_status q\<rparr>"

text \<open>
  One evaluation of \<open>useQuery(key, queryFn, {initialData, select})\<close> by a component whose
  observer last watched the key \<open>observed\<close>: the query is created if the cache has none for
  the key, its current result is returned, and the query function is started when the
  observer is new or has moved to another key. The query function is given by the
  promise it returns when run; the run is recorded with the key, and the promise
  settles after the evaluation (\<open>complete_fetch\<close>, \<open>settle_fetches\<close>).
\<close>

definition useQuery ::
  "qkey \<Rightarrow> promise \<Rightarrow> jsval \<Rightarrow> (jsval \<Rightarrow> jsval) \<Rightarrow> qkey option \<Rightarrow> world
     \<Rightarrow> query_result \<times> qkey option \<times> world" where
  "useQuery key queryFn initialData select observed w =
     (let q = (case cache w key of Some q \<Rightarrow> q | None \<Rightarrow> build_query initialData);
          w1 = w\<lparr>cache := (cache w)(key \<mapsto> q)\<rparr>;
          w2 = (if observed = Some key then w1
                else w1\<lparr>trace := trace w1 @ [FetchCall key queryFn]\<rparr>)
      in (createResult select q, Some key, w2))"

definition complete_fetch :: "qkey \<Rightarrow> promise \<Rightarrow> world \<Rightarrow> world" where
  "complete_fetch key outcome w =
     (case cache w key of
        None \<Rightarrow> w
      | Some q \<Rightarrow> w\<lparr>cache := (cache w)(key \<mapsto> settle_query outcome q)\<rparr>)"


text \<open>The keys, query functions and options of the hook's three queries.\<close>

definition variantsKey :: "qkey props \<Rightarrow> qkey" where
  "variantsKey p = filtersKey p @ [JStr ''variants'']"

definition variants_queryFn :: "'k props \<Rightarrow> promise" where
  "variants_queryFn p = (case getVariants p of Some g \<Rightarrow> g () | None \<Rightarrow> Inr JNull)"

definition filtersQueryKey :: "qkey props \<Rightarrow> router \<Rightarrow> qkey" where
  "filtersQueryKey p r = filtersKey p @ [JStr ''filters'', JBool (isReady r), initialFilters p]"

definition filters_queryFn :: "'k props \<Rightarrow> promise" where
  "filters_queryFn p =
     (case getFiltersValues p () of
        Inl e \<Rightarrow> Inl e
      | Inr v \<Rightarrow> Inr (nullish_coalesce v (initialFilters p)))"

definition filters_initialData :: "'k props \<Rightarrow> router \<Rightarrow> jsval" where
  "filters_initialData p r =
     (if \<not> isReady r then JUndefined
      else if length (map fst (query r)) \<noteq> 0 then queryParser p (query r)
      else initialFilters p)"

definition filters_select :: "'k props \<Rightarrow> jsval \<Rightarrow> jsval" where
  "filters_select p d = nullish_coalesce d (initialFilters p)"

definition valuesKey :: "qkey props \<Rightarrow> jsval \<Rightarrow> qkey" where
  "valuesKey p filters_data = filtersKey p @ [filters_data]"

definition values_queryFn :: "'k props \<Rightarrow> jsval \<Rightarrow> promise" where
  "values_queryFn p filters_data = getData p (nullish_coalesce filters_data (initialFilters p))"

subsection \<open>The applied-filters count\<close>

text \<open>
  Modelled from the spec: \<open>useState\<close> and \<open>useEffect\<close> of React (not part of the
  repository). A mounted hook keeps between evaluations the \<open>useState\<close> cell, the
  dependencies the effect last ran with (none before the first run), and the keys its
  three query observers watch. An effect runs after the evaluation when a dependency
  has changed, and what it sets shows in the next evaluation. React compares
  dependencies by identity; the model compares the values.
\<close>

record hook_state =
  appliedFiltersCount :: int
  effect_deps :: "(jsval \<times> (jsval \<Rightarrow> int) option) option"
  variants_observed :: "qkey option"
  filters_observed :: "qkey option"
  values_observed :: "qkey option"

definition mount :: hook_state where
  "mount = \<lparr>appliedFiltersCount = 0, effect_deps = None, variants_observed = None,
            filters_observed = None, values_observed = None\<rparr>"

definition effect_body :: "'k props \<Rightarrow> jsval \<Rightarrow> hook_state \<Rightarrow> hook_state" where
  "effect_body p filters_data st =
     (case getAppliedFiltersCount p of
        Some g \<Rightarrow> st\<lparr>appliedFiltersCount := g (nullish_coalesce filters_data (initialFilters p))\<rparr>
      | None \<Rightarrow> st)"

definition useEffect :: "'k props \<Rightarrow> jsval \<Rightarrow> hook_state \<Rightarrow> hook_state" where
  "useEffect p filters_data st =
     (let deps = (filters_data, getAppliedFiltersCount p)
      in if effect_deps st = Some deps then st
         else (effect_body p filters_data st)\<lparr>effect_deps := Some deps\<rparr>)"

subsection \<open>One evaluation of the hook\<close>

record use_filters_state =
  out_appliedFiltersCount :: int
  out_initialFilters :: jsval
  out_filters :: query_result
  out_values :: query_result
  out_variants :: query_result

text \<open>
  The returned object holds the count as it was when the evaluation started; the effect
  runs after the evaluation and its \<open>setAppliedFiltersCount\<close> shows in the next one.
\<close>

definition useFilters :: "qkey props \<Rightarrow> hook_state \<Rightarrow> world \<Rightarrow> use_filters_state \<times> hook_state \<times> world" where
  "useFilters p st w =
     (let (variants, vo, w1) =
             useQuery (variantsKey p) (variants_queryFn p) JUndefined id (variants_observed st) w;
          (filters, fo, w2) =
             useQuery (filtersQueryKey p (router w)) (filters_queryFn p)
               (filters_initialData p (router w)) (filters_select p) (filters_observed st) w1;
          (values, xo, w3) =
             useQuery (valuesKey p (r_data filters)) (values_queryFn p (r_data filters))
               JUndefined id (values_observed st) w2;
          st1 = st\<lparr>variants_observed := vo, filters_observed := fo, values_observed := xo\<rparr>
      in (\<lparr>out_appliedFiltersCount = appliedFiltersCount st,
           out_initialFilters = initialFilters p,
           out_filters = filters,
           out_values = values,
           out_variants = variants\<rparr>,
          useEffect p (r_data filters) st1,
          w3))"


text \<open>A sequence of evaluations, each with its own parameters, the world evolving in between.\<close>

fun evaluations :: "(qkey props \<times> (world \<Rightarrow> world)) list \<Rightarrow> hook_state \<Rightarrow> world \<Rightarrow> hook_state \<times> world" where
  "evaluations [] st w = (st, w)"
| "evaluations ((p, between) # rest) st w =
     (case useFilters p st w of (out, st1, w1) \<Rightarrow> evaluations rest st1 (between w1))"


subsection \<open>Histories of a query\<close>





text \<open>The query an evaluation of \<open>useQuery\<close> works on: the cached one, or a new one.\<close>

definition entry_or_new :: "world \<Rightarrow> qkey \<Rightarrow> jsval \<Rightarrow> query_state" where
  "entry_or_new w key initialData = (case cache w key of Some q \<Rightarrow> q | None \<Rightarrow> build_query initialData)"

text \<open>The three keys an evaluation of the hook uses.\<close>

definition hook_keys :: "qkey props \<Rightarrow> router \<Rightarrow> jsval \<Rightarrow> qkey list" where
  "hook_keys p r filters_data = [variantsKey p, filtersQueryKey p r, valuesKey p filters_data]"

section \<open>The service variant (the source of filters_manager.service.js)\<close>

subsection \<open>The query-string codec\<close>

text \<open>
  Modelled from the spec: the functions \<open>stringify\<close> and \<open>parseUrl\<close> of the package
  query-string, which the service variant imports and which is not part of the
  repository. The specification gives the policy (\<open>arrayFormat: 'bracket'\<close>,
  \<open>skipNull\<close>, \<open>skipEmptyString\<close>): a field whose value is null, undefined or the empty
  string is left out; an array field \<open>k\<close> gives one parameter \<open>k[]=x\<close> for each element
  \<open>x\<close> that is not null, undefined or empty; any other field gives \<open>k=v\<close>; names and values
  are written as text and percent-encoded; the parameters are joined by \<open>&\<close>. Parsing
  splits at \<open>&\<close>, splits each parameter at its first \<open>=\<close>, decodes both sides, and
  collects the parameters whose name ends in \<open>[]\<close> into an array. Every parsed value is
  a string, an array of strings, or null (the type \<open>ParsedQuery\<close>): the codec is not
  configured to parse numbers or booleans.
\<close>

definition unreserved :: "char \<Rightarrow> bool" where
  "unreserved c =
     (c \<in> set ''ABCDEFGHIJKLMNOPQRSTUVWXYZabcdefghijklmnopqrstuvwxyz0123456789-_.~'')"

definition hex_digit :: "nat \<Rightarrow> char" where
  "hex_digit n = ''0123456789ABCDEF'' ! n"

definition hex_value :: "char \<Rightarrow> nat option" where
  "hex_value c = map_of (zip ''0123456789ABCDEFabcdef'' ([0..<16] @ [10..<16])) c"

definition encode_char :: "char \<Rightarrow> string" where
  "encode_char c =
     (if unreserved c then [c]
      else [CHR ''%'', hex_digit (of_char c div 16), hex_digit (of_char c mod 16)])"

definition encode :: "string \<Rightarrow> string" where
  "encode s = concat (map encode_char s)"

fun decode :: "string \<Rightarrow> string" where
  "decode [] = []"
| "decode (c # cs) =
     (if c = CHR ''%'' then
        (case cs of
           a # b # rest \<Rightarrow>
             (case (hex_value a, hex_value b) of
                (Some x, Some y) \<Rightarrow> char_of (16 * x + y) # decode rest
              | _ \<Rightarrow> c # decode cs)
         | _ \<Rightarrow> c # decode cs)
      else c # decode cs)"

text \<open>\<open>String(v)\<close>, the text of a value.\<close>

definition show_int :: "int \<Rightarrow> string" where
  "show_int n = (if n < 0 then CHR ''-'' # show_nat (nat (- n)) else show_nat (nat n))"

fun join_with :: "char \<Rightarrow> string list \<Rightarrow> string" where
  "join_with c [] = []"
| "join_with c [x] = x"
| "join_with c (x # y # ys) = x @ c # join_with c (y # ys)"

fun to_string :: "jsval \<Rightarrow> string" where
  "to_string JUndefined = ''undefined''"
| "to_string JNull = ''null''"
| "to_string (JBool b) = (if b then ''true'' else ''false'')"
| "to_string (JNum n) = show_int n"
| "to_string (JStr s) = s"
| "to_string (JArr xs) =
     join_with CHR '','' (map (\<lambda>x. if x = JUndefined \<or> x = JNull then [] else to_string x) xs)"
| "to_string (JObj fs) = ''[object Object]''"

definition skipped :: "jsval \<Rightarrow> bool" where
  "skipped v = (v = JUndefined \<or> v = JNull \<or> v = JStr [])"

definition field_params :: "string \<times> jsval \<Rightarrow> string list" where
  "field_params kv =
     (case snd kv of
        JArr xs \<Rightarrow> map (\<lambda>x. encode (fst kv) @ ''[]='' @ encode (to_string x)) (filter (\<lambda>x. \<not> skipped x) xs)
      | v \<Rightarrow> [encode (fst kv) @ ''='' @ encode (to_string v)])"

definition stringify :: "(string \<times> jsval) list \<Rightarrow> string" where
  "stringify fs = join_with CHR ''&'' (concat (map field_params (filter (\<lambda>kv. \<not> skipped (snd kv)) fs)))"

fun split_on :: "char \<Rightarrow> string \<Rightarrow> string list" where
  "split_on c [] = [[]]"
| "split_on c (x # xs) =
     (if x = c then [] # split_on c xs
      else (case split_on c xs of [] \<Rightarrow> [[x]] | y # ys \<Rightarrow> (x # y) # ys))"

definition splitOnFirst :: "char \<Rightarrow> string \<Rightarrow> string \<times> string option" where
  "splitOnFirst c s =
     (if c \<in> set s then (takeWhile (\<lambda>x. x \<noteq> c) s, Some (tl (dropWhile (\<lambda>x. x \<noteq> c) s)))
      else (s, None))"

definition ends_with_brackets :: "string \<Rightarrow> bool" where
  "ends_with_brackets k = (2 \<le> length k \<and> drop (length k - 2) k = ''[]'')"

definition formatter :: "string \<Rightarrow> jsval \<Rightarrow> (string \<times> jsval) list \<Rightarrow> (string \<times> jsval) list" where
  "formatter key v acc =
     (if ends_with_brackets key then
        let key' = take (length key - 2) key
        in (case map_of acc key' of
              None \<Rightarrow> AList.update key' (JArr [v]) acc
            | Some old \<Rightarrow> AList.update key' (JArr ((case old of JArr xs \<Rightarrow> xs | x \<Rightarrow> [x]) @ [v])) acc)
      else AList.update key v acc)"

definition parse_param :: "string \<Rightarrow> (string \<times> jsval) list \<Rightarrow> (string \<times> jsval) list" where
  "parse_param param acc =
     (if param = [] then acc
      else
        (case splitOnFirst CHR ''='' (map (\<lambda>c. if c = CHR ''+'' then CHR '' '' else c) param) of
           (k, v) \<Rightarrow>
             formatter (decode k) (case v of None \<Rightarrow> JNull | Some t \<Rightarrow> JStr (decode t)) acc))"

definition parse :: "string \<Rightarrow> (string \<times> jsval) list" where
  "parse s = fold parse_param (split_on CHR ''&'' s) []"

text \<open>\<open>parseUrl(u)\<close>: the part before the query (\<open>url\<close>) and the parsed query (\<open>query\<close>).\<close>

definition removeHash :: "string \<Rightarrow> string" where
  "removeHash u = takeWhile (\<lambda>c. c \<noteq> CHR ''#'') u"

definition parseUrl_url :: "string \<Rightarrow> string" where
  "parseUrl_url u = takeWhile (\<lambda>c. c \<noteq> CHR ''?'') (removeHash u)"

definition extract_query :: "string \<Rightarrow> string" where
  "extract_query u = (if CHR ''?'' \<in> set (removeHash u) then tl (dropWhile (\<lambda>c. c \<noteq> CHR ''?'') (removeHash u)) else [])"

definition parseUrl_query :: "string \<Rightarrow> (string \<times> jsval) list" where
  "parseUrl_query u = parse (extract_query u)"

text \<open>
  What the round trip gives back for a field value: nothing when the field is skipped,
  the array of the texts of the elements that are not skipped for an array (nothing
  when no element is left, as the field then gives no parameter), the text of the value
  otherwise. \<open>as_parsed\<close> is the object of the fields that give something.
\<close>

definition parsed_field :: "jsval \<Rightarrow> jsval option" where
  "parsed_field v =
     (if skipped v then None
      else (case v of
              JArr xs \<Rightarrow>
                (if filter (\<lambda>x. \<not> skipped x) xs = [] then None
                 else Some (JArr (map (\<lambda>x. JStr (to_string x)) (filter (\<lambda>x. \<not> skipped x) xs))))
            | _ \<Rightarrow> Some (JStr (to_string v))))"

definition as_parsed :: "(string \<times> jsval) list \<Rightarrow> (string \<times> jsval) list" where
  "as_parsed fs =
     concat (map (\<lambda>kv. case parsed_field (snd kv) of None \<Rightarrow> [] | Some pv \<Rightarrow> [(fst kv, pv)]) fs)"

text \<open>The values an array under construction holds so far.\<close>

definition items_so_far :: "(string \<times> jsval) list \<Rightarrow> string \<Rightarrow> jsval list" where
  "items_so_far acc k = (case map_of acc k of None \<Rightarrow> [] | Some (JArr xs) \<Rightarrow> xs | Some x \<Rightarrow> [x])"

text \<open>The characters that structure a URL and its query string.\<close>

definition separator :: "char \<Rightarrow> bool" where
  "separator c = (c = CHR ''&'' \<or> c = CHR ''='' \<or> c = CHR ''+'' \<or> c = CHR ''#'' \<or> c = CHR ''?'')"

text \<open>The object restricted to its fields that are not null, undefined or the empty string.\<close>

definition restricted :: "(string \<times> jsval) list \<Rightarrow> (string \<times> jsval) list" where
  "restricted fs = filter (\<lambda>kv. \<not> skipped (snd kv)) fs"

text \<open>A field value that is text already: a string, or a non-empty array of non-empty strings.\<close>

definition textual :: "jsval \<Rightarrow> bool" where
  "textual v =
     (case v of
        JStr s \<Rightarrow> True
      | JArr xs \<Rightarrow> xs \<noteq> [] \<and> list_all (\<lambda>x. case x of JStr s \<Rightarrow> s \<noteq> [] | _ \<Rightarrow> False) xs
      | _ \<Rightarrow> False)"

subsection \<open>The hook of the service variant\<close>

definition variantsKey_svc :: "string props \<Rightarrow> qkey" where
  "variantsKey_svc p = [JStr (filtersKey p @ ''variants'')]"

definition filtersQueryKey_svc :: "string props \<Rightarrow> router \<Rightarrow> qkey" where
  "filtersQueryKey_svc p r = [JStr (filtersKey p @ ''filters''), JBool (isReady r), initialFilters p]"

definition valuesKey_svc :: "string props \<Rightarrow> jsval \<Rightarrow> qkey" where
  "valuesKey_svc p filters_data = [JStr (filtersKey p), filters_data]"

definition filtersPrefix_svc :: "string props \<Rightarrow> qkey" where
  "filtersPrefix_svc p = [JStr (filtersKey p @ ''filters'')]"


definition handleSetFiltersInUrl_svc :: "string props \<Rightarrow> jsval \<Rightarrow> world \<Rightarrow> world" where
  "handleSetFiltersInUrl_svc p d w =
     (if \<not> isReady (router w) \<or> \<not> truthy d then w
      else
        let transformedData = (case queryTransformer p of Some t \<Rightarrow> t d | None \<Rightarrow> d);
            query_string = stringify (own_fields transformedData);
            url = parseUrl_url (asPath (router w));
            replacedUrl = url @ (if query_string \<noteq> [] then CHR ''?'' # query_string else [])
        in w\<lparr>trace := trace w @ [RouterReplace (UrlString replacedUrl replacedUrl False)]\<rparr>)"

definition setFilters_svc :: "string props \<Rightarrow> jsval \<Rightarrow> world \<Rightarrow> mutation_result \<times> world" where
  "setFilters_svc p =
     mutate (call_setFiltersValues p)
       (\<lambda>d w. handleSetFiltersInUrl_svc p d (invalidateQueries (filtersPrefix_svc p) w))"


definition hook_keys_svc :: "string props \<Rightarrow> router \<Rightarrow> jsval \<Rightarrow> qkey list" where
  "hook_keys_svc p r filters_data =
     [variantsKey_svc p, filtersQueryKey_svc p r, valuesKey_svc p filters_data]"

section \<open>An example configuration\<close>

text \<open>
  The cart filters of the README: the key \<open>cart\<close>, the initial filters, a persistence
  function that echoes what it is given (and rejects \<open>null\<close>), on the page
  \<open>/cart?page=1\<close> with the filters query already in the cache.
\<close>

definition cart_initial :: jsval where
  "cart_initial =
     JObj [(''page'', JNum 1), (''perPage'', JNum 50), (''sortBy'', JNull),
           (''sortDirection'', JStr ''asc'')]"

definition cart_props :: "qkey props" where
  "cart_props =
     \<lparr>filtersKey = [JStr ''cart''],
      initialFilters = cart_initial,
      getData = (\<lambda>f. Inr (JArr [])),
      queryParser = (\<lambda>q. JObj q),
      getFiltersValues = (\<lambda>_. Inr JUndefined),
      setFiltersValues = (\<lambda>d. if d = JNull then Inl (JStr ''rejected'') else Inr d),
      queryTransformer = None,
      getAppliedFiltersCount = None,
      getVariants = None\<rparr>"

definition cart_world :: world where
  "cart_world =
     \<lparr>cache = [[JStr ''cart'', JStr ''filters'', JBool True, cart_initial] \<mapsto> build_query cart_initial],
      router = \<lparr>isReady = True, asPath = ''/cart?page=1'', query = [(''page'', JStr ''1'')]\<rparr>,
      trace = []\<rparr>"

definition page2 :: jsval where
  "page2 = JObj [(''page'', JNum 2)]"

text \<open>The same configuration with a count function: the number of fields of the filters.\<close>

definition counting_props :: "qkey props" where
  "counting_props = cart_props\<lparr>getAppliedFiltersCount := Some (\<lambda>f. int (length (own_fields f)))\<rparr>"


text \<open>
  The configuration for the service variant, and a cache shared with coordinators whose
  keys extend the cart's.
\<close>

definition cart_props_svc :: "string props" where
  "cart_props_svc =
     \<lparr>filtersKey = ''cart'',
      initialFilters = cart_initial,
      getData = (\<lambda>f. Inr (JArr [])),
      queryParser = (\<lambda>q. JObj q),
      getFiltersValues = (\<lambda>_. Inr JUndefined),
      setFiltersValues = (\<lambda>d. if d = JNull then Inl (JStr ''rejected'') else Inr d),
      queryTransformer = None,
      getAppliedFiltersCount = None,
      getVariants = None\<rparr>"

definition shared_world :: world where
  "shared_world =
     \<lparr>cache = [[JStr ''cart'', JStr ''filters'', JStr ''variants''] \<mapsto> build_query (JArr []),
               [JStr ''cartfilters'', page2] \<mapsto> build_query (JArr []),
               [JStr ''cart'', JStr ''filters'', JBool True, cart_initial] \<mapsto> build_query cart_initial],
      router = \<lparr>isReady = True, asPath = ''/cart?page=1'', query = [(''page'', JStr ''1'')]\<rparr>,
      trace = []\<rparr>"

text \<open>Filters with an array, reserved characters and a null field.\<close>

definition tags_filters :: "(string \<times> jsval) list" where
  "tags_filters =
     [(''tags'', JArr [JStr ''a&b'', JStr ''c d'']), (''q'', JStr ''x=y+z''), (''sortBy'', JNull)]"

text \<open>The cart's page before the router is ready.\<close>

definition not_ready_world :: world where
  "not_ready_world = cart_world\<lparr>router := (router cart_world)\<lparr>isReady := False\<rparr>\<rparr>"

section \<open>Properties\<close>

subsection \<open>Matching of query keys\<close>

declare partialDeepEqual.simps [simp del]
declare show_nat.simps [simp del]

lemma show_digit_inj: "m < 10 \<Longrightarrow> n < 10 \<Longrightarrow> show_digit m = show_digit n \<Longrightarrow> m = n"
proof -
  assume m: "m < 10" and n: "n < 10" and e: "show_digit m = show_digit n"
  from e have "of_char (char_of (48 + m)) = (of_char (char_of (48 + n)) :: nat)"
    by (simp add: show_digit_def)
  with m n show "m = n" by simp
qed

lemma show_nat_small: "n < 10 \<Longrightarrow> show_nat n = [show_digit n]"
  by (subst show_nat.simps) simp

lemma show_nat_big: "\<not> n < 10 \<Longrightarrow> show_nat n = show_nat (n div 10) @ [show_digit (n mod 10)]"
  by (subst show_nat.simps) simp

lemma show_nat_nonempty: "show_nat n \<noteq> []"
  by (cases "n < 10") (simp_all add: show_nat_small show_nat_big)

lemma show_nat_inj: "show_nat m = show_nat n \<Longrightarrow> m = n"
proof (induction m arbitrary: n rule: show_nat.induct)
  case (1 m)
  show ?case
  proof (cases "m < 10")
    case True
    note m = this
    show ?thesis
    proof (cases "n < 10")
      case True
      with m "1.prems" show ?thesis
        using show_digit_inj[of m n] by (simp add: show_nat_small)
    next
      case False
      with m "1.prems" show ?thesis
        using show_nat_nonempty[of "n div 10"] by (simp add: show_nat_small show_nat_big)
    qed
  next
    case False
    note m = this
    show ?thesis
    proof (cases "n < 10")
      case True
      with m "1.prems" show ?thesis
        using show_nat_nonempty[of "m div 10"] by (simp add: show_nat_small show_nat_big)
    next
      case False
      from m False "1.prems"
      have a: "show_nat (m div 10) = show_nat (n div 10)"
        and b: "show_digit (m mod 10) = show_digit (n mod 10)"
        by (simp_all add: show_nat_big)
      from "1.IH"[OF m a] have d: "m div 10 = n div 10" .
      from b have "m mod 10 = n mod 10"
        using show_digit_inj[of "m mod 10" "n mod 10"] by simp
      with d show ?thesis by (metis div_mult_mod_eq)
    qed
  qed
qed

lemma distinct_index_names: "distinct (map show_nat [0..<n])"
  by (simp add: distinct_map inj_on_def) (blast dest: show_nat_inj)

lemma get_field_JArr:
  "get_field (JArr xs) (show_nat i) = (if i < length xs then xs ! i else JUndefined)"
proof (cases "i < length xs")
  case True
  have "map_of (zip (map show_nat [0..<length xs]) xs) (map show_nat [0..<length xs] ! i) = Some (xs ! i)"
    using True by (intro map_of_zip_nth) (simp_all add: distinct_index_names)
  with True show ?thesis by (simp add: get_field_def own_fields_def)
next
  case False
  have "show_nat i \<notin> set (map show_nat [0..<length xs])"
    using False by (auto dest: show_nat_inj)
  then have "map_of (own_fields (JArr xs)) (show_nat i) = None"
    by (simp add: own_fields_def)
  then show ?thesis using False unfolding get_field_def by simp
qed

lemma partialDeepEqual_refl: "partialDeepEqual a a"
  by (subst partialDeepEqual.simps) simp

lemma partialMatchKey_iff:
  "partialMatchKey a b \<longleftrightarrow>
     (\<forall>i<length b. partialDeepEqual (if i < length a then a ! i else JUndefined) (b ! i))"
proof (cases "a = b")
  case True
  then show ?thesis
    by (simp add: partialMatchKey_def partialDeepEqual_refl)
next
  case False
  have "partialMatchKey a b \<longleftrightarrow>
      list_all (\<lambda>kx. partialDeepEqual (get_field (JArr a) (fst kx)) (snd kx))
        (zip (map show_nat [0..<length b]) b)"
    unfolding partialMatchKey_def
    by (subst partialDeepEqual.simps) (simp add: False is_object_def own_fields_def)
  also have "\<dots> \<longleftrightarrow> (\<forall>i<length b. partialDeepEqual (get_field (JArr a) (show_nat i)) (b ! i))"
    by (simp add: list_all_length)
  finally show ?thesis by (simp add: get_field_JArr)
qed

lemma partialDeepEqual_primitive: "primitive b \<Longrightarrow> partialDeepEqual a b \<longleftrightarrow> a = b"
  by (subst partialDeepEqual.simps) (auto simp: primitive_def is_object_def split: jsval.splits)

lemma prefix_partialMatchKey: "prefix b a \<Longrightarrow> partialMatchKey a b"
  by (auto simp: partialMatchKey_iff prefix_def nth_append partialDeepEqual_refl)

lemma partialMatchKey_primitive:
  assumes "list_all primitive b"
  shows "partialMatchKey a b \<longleftrightarrow> prefix b a"
proof
  assume m: "partialMatchKey a b"
  have *: "\<And>i. i < length b \<Longrightarrow> i < length a \<and> a ! i = b ! i"
  proof -
    fix i assume i: "i < length b"
    with assms have pb: "primitive (b ! i)" by (simp add: list_all_length)
    from m i have "partialDeepEqual (if i < length a then a ! i else JUndefined) (b ! i)"
      by (simp add: partialMatchKey_iff)
    then have "(if i < length a then a ! i else JUndefined) = b ! i"
      using partialDeepEqual_primitive[OF pb] by blast
    with pb show "i < length a \<and> a ! i = b ! i"
      by (auto simp: primitive_def split: if_splits)
  qed
  have len: "length b \<le> length a"
  proof (cases b rule: rev_cases)
    case (snoc ys y)
    with *[of "length ys"] show ?thesis by simp
  qed simp
  have "take (length b) a = b"
    using * len by (intro nth_equalityI) simp_all
  then show "prefix b a" by (metis take_is_prefix)
next
  assume "prefix b a" then show "partialMatchKey a b" by (rule prefix_partialMatchKey)
qed



subsection \<open>The write operations\<close>

lemma invalidateQueries_frame [simp]:
  "router (invalidateQueries key w) = router w"
  "trace (invalidateQueries key w) = trace w @ [InvalidateCall key]"
  by (simp_all add: invalidateQueries_def)

lemma handleSetFiltersInUrl_cache [simp]:
  "cache (handleSetFiltersInUrl p d w) = cache w"
  "router (handleSetFiltersInUrl p d w) = router w"
  by (simp_all add: handleSetFiltersInUrl_def Let_def)


text \<open>
  Claim C1, as amended. When the persistence call of \<open>setFilters\<close> resolves with \<open>R\<close>, the
  world after the operation is the URL reflection of \<open>R\<close> applied to the world in which
  the queries under the key followed by \<open>filters\<close> have been invalidated: every cached
  query whose key extends that prefix is marked invalidated, and the trace grows by the
  persistence call, the invalidation and then, when the router is ready and \<open>R\<close> is
  truthy, one \<open>router.replace\<close> to the current path with the transformed \<open>R\<close> as query
  (nothing otherwise); no page reload is among the new events, and the mutation result
  is a success holding \<open>R\<close>.
\<close>

theorem setFilters_success:
  assumes "setFiltersValues p v = Inr R"
  shows "snd (setFilters p v w) =
           handleSetFiltersInUrl p R
             (invalidateQueries (filtersKey p @ [JStr ''filters''])
                (w\<lparr>trace := trace w @ [PersistCall v]\<rparr>))
       \<and> (\<forall>k q. cache w k = Some q \<and> prefix (filtersKey p @ [JStr ''filters'']) k \<longrightarrow>
             cache (snd (setFilters p v w)) k = Some (q\<lparr>q_isInvalidated := True\<rparr>))
       \<and> trace (snd (setFilters p v w)) =
           trace w @ [PersistCall v, InvalidateCall (filtersKey p @ [JStr ''filters''])] @
             (if isReady (router w) \<and> truthy R
              then [RouterReplace (UrlObject (strip_query (asPath (router w)))
                      (case queryTransformer p of Some t \<Rightarrow> t R | None \<Rightarrow> R))]
              else [])
       \<and> PageReload \<notin> set (drop (length (trace w)) (trace (snd (setFilters p v w))))
       \<and> m_status (fst (setFilters p v w)) = MSuccess
       \<and> m_data (fst (setFilters p v w)) = R"
proof -
  let ?P = "filtersKey p @ [JStr ''filters'']"
  have s: "setFilters p v w =
      (\<lparr>m_status = MSuccess, m_data = R, m_error = JNull\<rparr>,
       handleSetFiltersInUrl p R (invalidateQueries ?P (w\<lparr>trace := trace w @ [PersistCall v]\<rparr>)))"
    using assms
    by (simp add: setFilters_def mutate_def call_setFiltersValues_def setFilters_onSuccess_def
        filtersPrefix_def)
  have c: "\<forall>k q. cache w k = Some q \<and> prefix ?P k \<longrightarrow>
      cache (snd (setFilters p v w)) k = Some (q\<lparr>q_isInvalidated := True\<rparr>)"
    by (simp add: s invalidateQueries_def prefix_partialMatchKey)
  have t: "trace (snd (setFilters p v w)) =
           trace w @ [PersistCall v, InvalidateCall ?P] @
             (if isReady (router w) \<and> truthy R
              then [RouterReplace (UrlObject (strip_query (asPath (router w)))
                      (case queryTransformer p of Some t \<Rightarrow> t R | None \<Rightarrow> R))]
              else [])"
    by (simp add: s handleSetFiltersInUrl_def Let_def)
  have r: "PageReload \<notin> set (drop (length (trace w)) (trace (snd (setFilters p v w))))"
    by (simp add: t)
  from s c t r show ?thesis by simp
qed

theorem setFilters_success_witness:
  "setFiltersValues cart_props page2 = Inr page2
   \<and> trace (snd (setFilters cart_props page2 cart_world)) =
       [PersistCall page2, InvalidateCall [JStr ''cart'', JStr ''filters''],
        RouterReplace (UrlObject ''/cart'' page2)]
   \<and> cache (snd (setFilters cart_props page2 cart_world))
        [JStr ''cart'', JStr ''filters'', JBool True, cart_initial]
      = Some ((build_query cart_initial)\<lparr>q_isInvalidated := True\<rparr>)"
proof -
  let ?k = "[JStr ''cart'', JStr ''filters'', JBool True, cart_initial]"
  have h: "setFiltersValues cart_props page2 = Inr page2"
    by (simp add: cart_props_def page2_def)
  note t = setFilters_success[OF h, of cart_world]
  from t have "trace (snd (setFilters cart_props page2 cart_world)) =
           trace cart_world @ [PersistCall page2, InvalidateCall (filtersKey cart_props @ [JStr ''filters''])] @
             (if isReady (router cart_world) \<and> truthy page2
              then [RouterReplace (UrlObject (strip_query (asPath (router cart_world)))
                      (case queryTransformer cart_props of Some t \<Rightarrow> t page2 | None \<Rightarrow> page2))]
              else [])"
    by blast
  then have 1: "trace (snd (setFilters cart_props page2 cart_world)) =
       [PersistCall page2, InvalidateCall [JStr ''cart'', JStr ''filters''],
        RouterReplace (UrlObject ''/cart'' page2)]"
    by (simp add: cart_props_def cart_world_def page2_def line_terminator_def)
  have c: "cache cart_world ?k = Some (build_query cart_initial)
      \<and> prefix (filtersKey cart_props @ [JStr ''filters'']) ?k"
    by (simp add: cart_world_def cart_props_def)
  from t have "\<forall>k q. cache cart_world k = Some q \<and> prefix (filtersKey cart_props @ [JStr ''filters'']) k \<longrightarrow>
             cache (snd (setFilters cart_props page2 cart_world)) k = Some (q\<lparr>q_isInvalidated := True\<rparr>)"
    by blast
  with c have 2: "cache (snd (setFilters cart_props page2 cart_world)) ?k
      = Some ((build_query cart_initial)\<lparr>q_isInvalidated := True\<rparr>)"
    by blast
  from h 1 2 show ?thesis by blast
qed


text \<open>
  The claim as stated fails while the router is not ready: the persistence call
  resolves and the filters query is invalidated, but the URL reflection returns at
  its guard, so nothing is navigated and the URL does not show the new value.
\<close>

theorem setFilters_not_ready_counterexample:
  "setFiltersValues cart_props page2 = Inr page2
   \<and> m_status (fst (setFilters cart_props page2 not_ready_world)) = MSuccess
   \<and> trace (snd (setFilters cart_props page2 not_ready_world)) =
       [PersistCall page2, InvalidateCall [JStr ''cart'', JStr ''filters'']]
   \<and> navigations (trace (snd (setFilters cart_props page2 not_ready_world))) = []"
  by (simp add: setFilters_def mutate_def call_setFiltersValues_def setFilters_onSuccess_def
      handleSetFiltersInUrl_def filtersPrefix_def navigations_def
      cart_props_def not_ready_world_def cart_world_def page2_def)

text \<open>
  Claim C2. When the persistence call of \<open>setFilters\<close> rejects with \<open>E\<close>, the cache and the
  router are as before, the only new event is the one persistence call (no invalidation,
  no navigation, no second attempt), and the mutation result is an error holding \<open>E\<close>.
\<close>

theorem setFilters_rejected:
  assumes "setFiltersValues p v = Inl E"
  shows "cache (snd (setFilters p v w)) = cache w
       \<and> router (snd (setFilters p v w)) = router w
       \<and> trace (snd (setFilters p v w)) = trace w @ [PersistCall v]
       \<and> m_status (fst (setFilters p v w)) = MError
       \<and> m_error (fst (setFilters p v w)) = E"
  using assms by (simp add: setFilters_def mutate_def call_setFiltersValues_def)

theorem setFilters_rejected_witness:
  "setFiltersValues cart_props JNull = Inl (JStr ''rejected'')
   \<and> cache (snd (setFilters cart_props JNull cart_world)) = cache cart_world
   \<and> router (snd (setFilters cart_props JNull cart_world)) = router cart_world
   \<and> trace (snd (setFilters cart_props JNull cart_world)) = [PersistCall JNull]
   \<and> m_error (fst (setFilters cart_props JNull cart_world)) = JStr ''rejected''"
  using setFilters_rejected[of cart_props JNull "JStr ''rejected''" cart_world]
  by (simp add: cart_props_def cart_world_def)


lemma setFilters_persisted:
  "persisted (trace (snd (setFilters p v w))) = persisted (trace w) @ [v]"
  by (cases "setFiltersValues p v")
     (simp_all add: setFilters_def mutate_def call_setFiltersValues_def setFilters_onSuccess_def
        handleSetFiltersInUrl_def Let_def persisted_def)

text \<open>
  Claim C4. \<open>resetFilters\<close> is the write operation on its target: it agrees with the
  specification's description, with a transform \<open>f\<close> it is \<open>setFilters\<close> on
  \<open>f initialFilters\<close> and the value persisted is \<open>f initialFilters\<close>, without a transform it
  is \<open>setFilters\<close> on \<open>initialFilters\<close> and that is the value persisted.
\<close>

theorem resetFilters_refines:
  "resetFilters p cb w = resetFilters_spec p cb w
   \<and> resetFilters p (Some f) w = setFilters p (f (initialFilters p)) w
   \<and> resetFilters p None w = setFilters p (initialFilters p) w
   \<and> persisted (trace (snd (resetFilters p (Some f) w))) = persisted (trace w) @ [f (initialFilters p)]
   \<and> persisted (trace (snd (resetFilters p None w))) = persisted (trace w) @ [initialFilters p]"
proof -
  have o: "resetFilters_onSuccess p = setFilters_onSuccess p"
    by (intro ext) (simp add: resetFilters_onSuccess_def setFilters_onSuccess_def)
  have e: "resetFilters p c w = resetFilters_spec p c w" for c
    by (simp add: resetFilters_def resetFilters_spec_def setFilters_def mutate_def o)
  have a: "resetFilters p (Some f) w = setFilters p (f (initialFilters p)) w"
    and b: "resetFilters p None w = setFilters p (initialFilters p) w"
    by (simp_all add: e resetFilters_spec_def)
  show ?thesis
    unfolding a b by (simp add: e setFilters_persisted)
qed

theorem resetFilters_refines_witness:
  "persisted (trace (snd (resetFilters cart_props (Some (\<lambda>i. page2)) cart_world))) = [page2]
   \<and> persisted (trace (snd (resetFilters cart_props None cart_world))) = [cart_initial]"
proof -
  note t = resetFilters_refines[of cart_props None cart_world "\<lambda>i. page2"]
  from t have "persisted (trace (snd (resetFilters cart_props (Some (\<lambda>i. page2)) cart_world)))
      = persisted (trace cart_world) @ [page2]"
    by blast
  moreover from t have "persisted (trace (snd (resetFilters cart_props None cart_world)))
      = persisted (trace cart_world) @ [initialFilters cart_props]"
    by blast
  ultimately show ?thesis
    by (simp add: cart_world_def cart_props_def persisted_def)
qed


subsection \<open>URL reflection\<close>

text \<open>
  Claim C7. In both variants the URL reflection leaves the world as it is (the router's
  location and the trace, so no \<open>router.replace\<close>) when the router is not ready or when the
  value it is given is falsy, as \<open>undefined\<close> and \<open>null\<close> are.
\<close>

theorem handleSetFiltersInUrl_noop:
  "\<not> isReady (router w) \<or> \<not> truthy d \<Longrightarrow>
     handleSetFiltersInUrl p d w = w \<and> handleSetFiltersInUrl_svc ps d w = w"
  by (auto simp: handleSetFiltersInUrl_def handleSetFiltersInUrl_svc_def)

theorem handleSetFiltersInUrl_noop_witness:
  "\<not> truthy JUndefined
   \<and> handleSetFiltersInUrl cart_props JUndefined cart_world = cart_world
   \<and> handleSetFiltersInUrl_svc cart_props_svc JNull cart_world = cart_world
   \<and> \<not> isReady (router not_ready_world)
   \<and> handleSetFiltersInUrl cart_props page2 not_ready_world = not_ready_world
   \<and> handleSetFiltersInUrl_svc cart_props_svc page2 not_ready_world = not_ready_world"
proof -
  have a: "\<not> isReady (router cart_world) \<or> \<not> truthy JUndefined"
    and b: "\<not> isReady (router cart_world) \<or> \<not> truthy JNull"
    by simp_all
  have n: "\<not> isReady (router not_ready_world)"
    by (simp add: not_ready_world_def)
  then have c: "\<not> isReady (router not_ready_world) \<or> \<not> truthy page2" by simp
  from handleSetFiltersInUrl_noop[OF a, of cart_props cart_props_svc]
    handleSetFiltersInUrl_noop[OF b, of cart_props cart_props_svc]
    handleSetFiltersInUrl_noop[OF c, of cart_props cart_props_svc] n
  show ?thesis by simp
qed

text \<open>
  An object without fields is a value, not an absent one: with a ready router the
  reflection navigates to the path with the empty object as query.
\<close>

lemma handleSetFiltersInUrl_empty_object:
  "trace (handleSetFiltersInUrl cart_props (JObj []) cart_world)
     = [RouterReplace (UrlObject ''/cart'' (JObj []))]"
  by (simp add: handleSetFiltersInUrl_def cart_props_def cart_world_def line_terminator_def)

subsection \<open>The filters query\<close>

lemma useQuery_result:
  "fst (useQuery key f i s ob w) = createResult s (entry_or_new w key i)"
  "fst (snd (useQuery key f i s ob w)) = Some key"
  "trace (snd (snd (useQuery key f i s ob w)))
     = trace w @ (if ob = Some key then [] else [FetchCall key f])"
  "router (snd (snd (useQuery key f i s ob w))) = router w"
  "cache (snd (snd (useQuery key f i s ob w))) = (cache w)(key \<mapsto> entry_or_new w key i)"
  by (simp_all add: useQuery_def Let_def entry_or_new_def)

lemma filtersQueryKey_neq_variantsKey: "filtersQueryKey p r \<noteq> variantsKey p"
  by (simp add: filtersQueryKey_def variantsKey_def)

lemma useFilters_out:
  "out_appliedFiltersCount (fst (useFilters p st w)) = appliedFiltersCount st"
  "out_filters (fst (useFilters p st w)) =
     createResult (filters_select p)
       (entry_or_new w (filtersQueryKey p (router w)) (filters_initialData p (router w)))"
  by (simp_all add: useFilters_def Let_def split_def useQuery_result entry_or_new_def
      filtersQueryKey_neq_variantsKey)

lemma useFilters_state:
  "appliedFiltersCount (fst (snd (useFilters p st w))) =
     appliedFiltersCount (useEffect p (r_data (out_filters (fst (useFilters p st w)))) st)"
  "effect_deps (fst (snd (useFilters p st w))) =
     effect_deps (useEffect p (r_data (out_filters (fst (useFilters p st w)))) st)"
  "variants_observed (fst (snd (useFilters p st w))) = Some (variantsKey p)"
  by (simp_all add: useFilters_def Let_def split_def useQuery_result useEffect_def effect_body_def
      split: option.splits)













subsection \<open>The applied-filters count\<close>

lemma useEffect_count:
  "appliedFiltersCount (useEffect p d st) =
     (case getAppliedFiltersCount p of
        Some g \<Rightarrow> if effect_deps st = Some (d, Some g) then appliedFiltersCount st
                  else g (nullish_coalesce d (initialFilters p))
      | None \<Rightarrow> appliedFiltersCount st)"
  by (simp add: useEffect_def effect_body_def Let_def split: option.splits)

lemma evaluations_no_counter:
  "\<forall>e \<in> set es. getAppliedFiltersCount (fst e) = None \<Longrightarrow>
     appliedFiltersCount (fst (evaluations es st w)) = appliedFiltersCount st"
proof (induction es st w rule: evaluations.induct)
  case (1 st w)
  then show ?case by simp
next
  case (2 p between rest st w)
  obtain out st1 w1 where u: "useFilters p st w = (out, st1, w1)"
    by (cases "useFilters p st w") auto
  from 2 have n: "getAppliedFiltersCount p = None" by simp
  have "appliedFiltersCount st1 = appliedFiltersCount st"
    using useFilters_state(1)[of p st w] by (simp add: u useEffect_count n)
  moreover have "appliedFiltersCount (fst (evaluations rest st1 (between w1))) = appliedFiltersCount st1"
    using 2 u by simp
  ultimately show ?case by (simp add: u)
qed


text \<open>
  Claim C8, as amended. When a count function \<open>g\<close> is supplied and the effect's
  dependencies have changed (the resolved filters, or the function), the evaluation
  itself still returns the count held before, and the evaluation after it returns \<open>g\<close> of
  the resolved filters (of the initial filters while there are none). When no evaluation
  since the mount was given a count function, the count is 0.
\<close>

theorem appliedFiltersCount_tracks:
  "(getAppliedFiltersCount p = Some g
      \<and> effect_deps st \<noteq> Some (r_data (out_filters (fst (useFilters p st w))), Some g) \<longrightarrow>
        out_appliedFiltersCount (fst (useFilters p st w)) = appliedFiltersCount st
        \<and> out_appliedFiltersCount (fst (useFilters p2 (fst (snd (useFilters p st w))) w2))
            = g (nullish_coalesce (r_data (out_filters (fst (useFilters p st w)))) (initialFilters p)))
   \<and> ((\<forall>e \<in> set es. getAppliedFiltersCount (fst e) = None) \<longrightarrow>
        appliedFiltersCount (fst (evaluations es mount w)) = 0
        \<and> out_appliedFiltersCount (fst (useFilters p2 (fst (evaluations es mount w)) w2)) = 0)"
proof -
  have a: "out_appliedFiltersCount (fst (useFilters p2 (fst (snd (useFilters p st w))) w2))
            = g (nullish_coalesce (r_data (out_filters (fst (useFilters p st w)))) (initialFilters p))"
    if "getAppliedFiltersCount p = Some g"
      and "effect_deps st \<noteq> Some (r_data (out_filters (fst (useFilters p st w))), Some g)"
    using that by (simp add: useFilters_out(1) useFilters_state(1) useEffect_count)
  have b: "appliedFiltersCount (fst (evaluations es mount w)) = 0"
    if "\<forall>e \<in> set es. getAppliedFiltersCount (fst e) = None"
    using evaluations_no_counter[OF that, of mount w] by (simp add: mount_def)
  from a b show ?thesis by (simp add: useFilters_out(1))
qed


theorem appliedFiltersCount_tracks_witness:
  "out_appliedFiltersCount (fst (useFilters counting_props mount cart_world)) = 0
   \<and> out_appliedFiltersCount
        (fst (useFilters counting_props (fst (snd (useFilters counting_props mount cart_world))) cart_world)) = 4
   \<and> appliedFiltersCount (fst (evaluations [(cart_props, id)] mount cart_world)) = 0"
proof -
  let ?g = "\<lambda>f. int (length (own_fields f))"
  have d: "r_data (out_filters (fst (useFilters counting_props mount cart_world))) = cart_initial"
    by (simp add: useFilters_out(2) entry_or_new_def filtersQueryKey_def counting_props_def
        cart_props_def cart_world_def build_query_def createResult_def filters_select_def
        nullish_coalesce_def nullish_def cart_initial_def)
  have h: "getAppliedFiltersCount counting_props = Some ?g
      \<and> effect_deps mount \<noteq> Some (r_data (out_filters (fst (useFilters counting_props mount cart_world))), Some ?g)"
    by (simp add: counting_props_def mount_def)
  have n: "\<forall>e \<in> set [(cart_props, id :: world \<Rightarrow> world)]. getAppliedFiltersCount (fst e) = None"
    by (simp add: cart_props_def)
  note t = appliedFiltersCount_tracks[of counting_props ?g mount cart_world counting_props cart_world
      "[(cart_props, id)]"]
  from t h have "out_appliedFiltersCount (fst (useFilters counting_props mount cart_world))
        = appliedFiltersCount mount
      \<and> out_appliedFiltersCount
        (fst (useFilters counting_props (fst (snd (useFilters counting_props mount cart_world))) cart_world))
        = ?g (nullish_coalesce (r_data (out_filters (fst (useFilters counting_props mount cart_world))))
               (initialFilters counting_props))"
    by blast
  moreover have "appliedFiltersCount mount = 0"
    by (simp add: mount_def)
  moreover have "?g (nullish_coalesce cart_initial (initialFilters counting_props)) = 4"
    by (simp add: nullish_coalesce_def nullish_def cart_initial_def own_fields_def)
  ultimately have 1: "out_appliedFiltersCount (fst (useFilters counting_props mount cart_world)) = 0
      \<and> out_appliedFiltersCount
        (fst (useFilters counting_props (fst (snd (useFilters counting_props mount cart_world))) cart_world)) = 4"
    by (simp add: d)
  from t n have 2: "appliedFiltersCount (fst (evaluations [(cart_props, id)] mount cart_world)) = 0"
    by blast
  from 1 2 show ?thesis by blast
qed

text \<open>
  The claim as stated fails: after an evaluation with a count function (the count
  becomes 4, the number of fields of the cart's initial filters) and an evaluation
  without one, an evaluation without a count function still returns 4.
\<close>

theorem appliedFiltersCount_stale_counterexample:
  "getAppliedFiltersCount cart_props = None
   \<and> out_appliedFiltersCount
        (fst (useFilters cart_props
           (fst (evaluations [(counting_props, id), (cart_props, id)] mount cart_world))
           (snd (evaluations [(counting_props, id), (cart_props, id)] mount cart_world)))) = 4"
proof -
  obtain out1 st1 w1 where u: "useFilters counting_props mount cart_world = (out1, st1, w1)"
    by (cases "useFilters counting_props mount cart_world") auto
  have g: "getAppliedFiltersCount counting_props = Some (\<lambda>f. int (length (own_fields f)))"
    by (simp add: counting_props_def)
  have n: "getAppliedFiltersCount cart_props = None"
    by (simp add: cart_props_def)
  have d: "r_data (out_filters (fst (useFilters counting_props mount cart_world))) = cart_initial"
    by (simp add: useFilters_out(2) entry_or_new_def filtersQueryKey_def counting_props_def
        cart_props_def cart_world_def build_query_def createResult_def filters_select_def
        nullish_coalesce_def nullish_def cart_initial_def)
  from d have d': "r_data (out_filters out1) = cart_initial"
    by (simp add: u)
  have "appliedFiltersCount st1 =
      appliedFiltersCount (useEffect counting_props cart_initial mount)"
    using useFilters_state(1)[of counting_props mount cart_world] by (simp add: u d')
  also have "\<dots> = 4"
    by (simp add: useEffect_count g mount_def counting_props_def cart_props_def
        nullish_coalesce_def nullish_def cart_initial_def own_fields_def)
  finally have c1: "appliedFiltersCount st1 = 4" .
  have "appliedFiltersCount (fst (evaluations [(cart_props, id)] st1 (id w1))) = appliedFiltersCount st1"
    by (rule evaluations_no_counter) (simp add: n)
  then have "appliedFiltersCount (fst (evaluations [(counting_props, id), (cart_props, id)] mount cart_world)) = 4"
    by (simp add: u c1)
  then show ?thesis by (simp add: useFilters_out(1) n)
qed



subsection \<open>The variants query\<close>


lemma invalidateQueries_cache:
  "cache (invalidateQueries key w) k =
     (if partialMatchKey k key then map_option (\<lambda>q. q\<lparr>q_isInvalidated := True\<rparr>) (cache w k)
      else cache w k)"
  by (simp add: invalidateQueries_def split: option.splits)

lemma setFilters_cache_unmatched:
  "\<not> partialMatchKey k (filtersPrefix p) \<Longrightarrow> cache (snd (setFilters p v w)) k = cache w k"
  by (cases "setFiltersValues p v")
     (simp_all add: setFilters_def mutate_def call_setFiltersValues_def setFilters_onSuccess_def
        invalidateQueries_cache)

lemma setFilters_svc_cache_unmatched:
  "\<not> partialMatchKey k (filtersPrefix_svc p) \<Longrightarrow> cache (snd (setFilters_svc p v w)) k = cache w k"
  by (cases "setFiltersValues p v")
     (simp_all add: setFilters_svc_def mutate_def call_setFiltersValues_def
        invalidateQueries_cache handleSetFiltersInUrl_svc_def Let_def)


lemma complete_fetch_other: "K1 \<noteq> K2 \<Longrightarrow> cache (complete_fetch K2 outcome w) K1 = cache w K1"
  by (simp add: complete_fetch_def split: option.splits)











subsection \<open>Two coordinators on one cache\<close>

lemma primitive_filtersPrefix:
  "list_all primitive (filtersKey p) \<Longrightarrow> list_all primitive (filtersPrefix p)"
  by (simp add: filtersPrefix_def primitive_def)

lemma hook_keys_distinct:
  assumes "filtersKey p1 \<noteq> filtersKey p2"
    and "\<not> prefix (filtersKey p1 @ [JStr ''filters'']) (filtersKey p2)"
    and "\<not> prefix (filtersKey p2 @ [JStr ''filters'']) (filtersKey p1)"
    and "K1 \<in> set (hook_keys p1 r1 d1)" and "K2 \<in> set (hook_keys p2 r2 d2)"
  shows "K1 \<noteq> K2"
proof
  assume e: "K1 = K2"
  have a: "\<And>a b x y z. a @ [x] = b @ [JStr ''filters'', y, z] \<Longrightarrow> prefix (b @ [JStr ''filters'']) a"
  proof -
    fix a b :: qkey and x y z
    assume "a @ [x] = b @ [JStr ''filters'', y, z]"
    then have "a @ [x] = (b @ [JStr ''filters'', y]) @ [z]" by simp
    then have "a = (b @ [JStr ''filters'']) @ [y]" by (simp del: append_assoc)
    then show "prefix (b @ [JStr ''filters'']) a" by (simp del: append_assoc)
  qed
  from assms(4,5) e assms(1,2,3) show False
    by (auto simp: hook_keys_def variantsKey_def filtersQueryKey_def valuesKey_def
        dest: a a[OF sym])
qed

lemma hook_keys_unmatched:
  assumes "list_all primitive (filtersKey p1)"
    and "filtersKey p1 \<noteq> filtersKey p2"
    and "\<not> prefix (filtersKey p1 @ [JStr ''filters'']) (filtersKey p2)"
    and "\<not> prefix (filtersKey p2 @ [JStr ''filters'']) (filtersKey p1)"
    and "K2 \<in> set (hook_keys p2 r2 d2)"
  shows "\<not> partialMatchKey K2 (filtersPrefix p1)"
proof -
  let ?P = "filtersKey p1 @ [JStr ''filters'']"
  let ?k = "filtersKey p2"
  have v: "\<not> prefix ?P (?k @ [JStr ''variants''])"
    using assms(3) by auto
  have d: "\<not> prefix ?P (?k @ [d2])"
    using assms(2,3) by auto
  have "\<not> prefix ?P (((?k @ [JStr ''filters'']) @ [JBool (isReady r2)]) @ [initialFilters p2])"
    using assms(2,3,4) unfolding prefix_snoc[of ?P] by auto
  then have f: "\<not> prefix ?P (?k @ [JStr ''filters'', JBool (isReady r2), initialFilters p2])"
    by simp
  have "\<not> prefix (filtersPrefix p1) K2"
    using assms(5) v d f
    by (auto simp: hook_keys_def variantsKey_def filtersQueryKey_def valuesKey_def filtersPrefix_def)
  then show ?thesis
    by (simp add: partialMatchKey_primitive primitive_filtersPrefix assms(1))
qed


lemma variants_neq_filters: "a @ ''variants'' \<noteq> b @ ''filters''"
proof
  assume "a @ ''variants'' = b @ ''filters''"
  then have "rev (a @ ''variants'') = rev (b @ ''filters'')" by simp
  then show False by simp
qed

lemma hook_keys_svc_distinct:
  assumes "filtersKey s1 \<noteq> filtersKey s2"
    and "L1 \<in> set (hook_keys_svc s1 r1 d1)" and "L2 \<in> set (hook_keys_svc s2 r2 d2)"
  shows "L1 \<noteq> L2"
  using assms
  by (auto simp: hook_keys_svc_def variantsKey_svc_def filtersQueryKey_svc_def valuesKey_svc_def)

lemma hook_keys_svc_unmatched:
  assumes "filtersKey s1 \<noteq> filtersKey s2"
    and "filtersKey s2 \<noteq> filtersKey s1 @ ''filters''"
    and "L2 \<in> set (hook_keys_svc s2 r2 d2)"
  shows "\<not> partialMatchKey L2 (filtersPrefix_svc s1)"
proof -
  have "\<not> prefix (filtersPrefix_svc s1) L2"
    using assms variants_neq_filters[of "filtersKey s2" "filtersKey s1"]
    by (auto simp: hook_keys_svc_def variantsKey_svc_def filtersQueryKey_svc_def valuesKey_svc_def
        filtersPrefix_svc_def)
  then show ?thesis
    by (simp add: partialMatchKey_primitive filtersPrefix_svc_def primitive_def)
qed

lemma resetFilters_as_setFilters:
  "resetFilters p cb w =
     setFilters p (case cb of Some f \<Rightarrow> f (initialFilters p) | None \<Rightarrow> initialFilters p) w"
proof -
  have "resetFilters_onSuccess p = setFilters_onSuccess p"
    by (intro ext) (simp add: resetFilters_onSuccess_def setFilters_onSuccess_def)
  then show ?thesis
    by (simp add: resetFilters_def setFilters_def mutate_def)
qed

lemma useFilters_cache:
  "K \<notin> set (hook_keys p (router w) (r_data (out_filters (fst (useFilters p st w))))) \<Longrightarrow>
     cache (snd (snd (useFilters p st w))) K = cache w K"
  by (simp add: useFilters_def Let_def split_def useQuery_result hook_keys_def entry_or_new_def
      filtersQueryKey_neq_variantsKey)


text \<open>
  Claim C6, as amended. Take two coordinators on one cache whose key namespaces differ
  and are such that neither begins with the other followed by the segment \<open>filters\<close>
  (tsx variant, the segments being strings, numbers or booleans), respectively neither
  is the other with \<open>filters\<close> appended (service variant). Then every key of the one
  differs from every key of the other, so that what the other fetches, evaluates or
  writes leaves the entries of the first as they are: no read of the first returns an
  entry of the other, and no \<open>setFilters\<close> or \<open>resetFilters\<close> of the other invalidates an
  entry of the first. The hypotheses are symmetric, so the same holds with the roles
  exchanged.
\<close>

theorem namespaces_isolated:
  "(list_all primitive (filtersKey p1) \<and> list_all primitive (filtersKey p2)
     \<and> filtersKey p1 \<noteq> filtersKey p2
     \<and> \<not> prefix (filtersKey p1 @ [JStr ''filters'']) (filtersKey p2)
     \<and> \<not> prefix (filtersKey p2 @ [JStr ''filters'']) (filtersKey p1)
     \<and> K1 \<in> set (hook_keys p1 r1 d1) \<longrightarrow>
       (\<forall>K2 \<in> set (hook_keys p2 r2 d2).
          K1 \<noteq> K2 \<and> cache (complete_fetch K2 outcome w) K1 = cache w K1)
       \<and> cache (snd (snd (useFilters p2 st w))) K1 = cache w K1
       \<and> cache (snd (setFilters p2 v w)) K1 = cache w K1
       \<and> cache (snd (resetFilters p2 cb w)) K1 = cache w K1)
   \<and> (filtersKey s1 \<noteq> filtersKey s2
     \<and> filtersKey s1 \<noteq> filtersKey s2 @ ''filters''
     \<and> filtersKey s2 \<noteq> filtersKey s1 @ ''filters''
     \<and> L1 \<in> set (hook_keys_svc s1 r1 d1) \<longrightarrow>
       (\<forall>L2 \<in> set (hook_keys_svc s2 r2 d2).
          L1 \<noteq> L2 \<and> cache (complete_fetch L2 outcome w) L1 = cache w L1)
       \<and> cache (snd (setFilters_svc s2 v w)) L1 = cache w L1)"
proof (intro conjI impI)
  assume h: "list_all primitive (filtersKey p1) \<and> list_all primitive (filtersKey p2)
     \<and> filtersKey p1 \<noteq> filtersKey p2
     \<and> \<not> prefix (filtersKey p1 @ [JStr ''filters'']) (filtersKey p2)
     \<and> \<not> prefix (filtersKey p2 @ [JStr ''filters'']) (filtersKey p1)
     \<and> K1 \<in> set (hook_keys p1 r1 d1)"
  have d: "K1 \<noteq> K2" if "K2 \<in> set (hook_keys p2 r d)" for K2 r d
    using hook_keys_distinct[of p1 p2 K1 r1 d1 K2 r d] h that by blast
  show "\<forall>K2 \<in> set (hook_keys p2 r2 d2).
          K1 \<noteq> K2 \<and> cache (complete_fetch K2 outcome w) K1 = cache w K1"
    using d by (simp add: complete_fetch_other)
  show "cache (snd (snd (useFilters p2 st w))) K1 = cache w K1"
    using d by (intro useFilters_cache) blast
  have u: "\<not> partialMatchKey K1 (filtersPrefix p2)"
    using hook_keys_unmatched[of p2 p1 K1 r1 d1] h by auto
  show "cache (snd (setFilters p2 v w)) K1 = cache w K1"
    using u by (rule setFilters_cache_unmatched)
  show "cache (snd (resetFilters p2 cb w)) K1 = cache w K1"
    using u by (simp add: resetFilters_as_setFilters setFilters_cache_unmatched)
next
  assume h: "filtersKey s1 \<noteq> filtersKey s2
     \<and> filtersKey s1 \<noteq> filtersKey s2 @ ''filters''
     \<and> filtersKey s2 \<noteq> filtersKey s1 @ ''filters''
     \<and> L1 \<in> set (hook_keys_svc s1 r1 d1)"
  have d: "L1 \<noteq> L2" if "L2 \<in> set (hook_keys_svc s2 r2 d2)" for L2
    using hook_keys_svc_distinct[of s1 s2 L1 r1 d1 L2 r2 d2] h that by blast
  show "\<forall>L2 \<in> set (hook_keys_svc s2 r2 d2).
          L1 \<noteq> L2 \<and> cache (complete_fetch L2 outcome w) L1 = cache w L1"
    using d by (simp add: complete_fetch_other)
  have "\<not> partialMatchKey L1 (filtersPrefix_svc s2)"
    using hook_keys_svc_unmatched[of s2 s1 L1 r1 d1] h by auto
  then show "cache (snd (setFilters_svc s2 v w)) L1 = cache w L1"
    by (rule setFilters_svc_cache_unmatched)
qed


theorem namespaces_isolated_witness:
  "cache (snd (setFilters (cart_props\<lparr>filtersKey := [JStr ''orders'']\<rparr>) page2 shared_world))
      [JStr ''cart'', JStr ''filters'', JBool True, cart_initial]
     = Some (build_query cart_initial)
   \<and> variantsKey_svc cart_props_svc \<noteq> variantsKey_svc (cart_props_svc\<lparr>filtersKey := ''orders''\<rparr>)"
proof -
  let ?p2 = "cart_props\<lparr>filtersKey := [JStr ''orders'']\<rparr>"
  let ?s2 = "cart_props_svc\<lparr>filtersKey := ''orders''\<rparr>"
  let ?K = "[JStr ''cart'', JStr ''filters'', JBool True, cart_initial]"
  have h: "list_all primitive (filtersKey cart_props) \<and> list_all primitive (filtersKey ?p2)
     \<and> filtersKey cart_props \<noteq> filtersKey ?p2
     \<and> \<not> prefix (filtersKey cart_props @ [JStr ''filters'']) (filtersKey ?p2)
     \<and> \<not> prefix (filtersKey ?p2 @ [JStr ''filters'']) (filtersKey cart_props)
     \<and> ?K \<in> set (hook_keys cart_props (router shared_world) page2)"
    by (simp add: cart_props_def primitive_def hook_keys_def filtersQueryKey_def shared_world_def)
  have g: "filtersKey cart_props_svc \<noteq> filtersKey ?s2
     \<and> filtersKey cart_props_svc \<noteq> filtersKey ?s2 @ ''filters''
     \<and> filtersKey ?s2 \<noteq> filtersKey cart_props_svc @ ''filters''
     \<and> variantsKey_svc cart_props_svc \<in> set (hook_keys_svc cart_props_svc (router shared_world) page2)"
    by (simp add: cart_props_svc_def hook_keys_svc_def)
  have m: "variantsKey_svc ?s2 \<in> set (hook_keys_svc ?s2 (router shared_world) page2)"
    by (simp add: hook_keys_svc_def)
  note t = namespaces_isolated[of cart_props ?p2 ?K "router shared_world" page2
      "router shared_world" page2 "Inr JNull" shared_world mount page2 None
      cart_props_svc ?s2 "variantsKey_svc cart_props_svc"]
  from t h have "cache (snd (setFilters ?p2 page2 shared_world)) ?K = cache shared_world ?K"
    by blast
  then have 1: "cache (snd (setFilters ?p2 page2 shared_world)) ?K = Some (build_query cart_initial)"
    by (simp add: shared_world_def)
  from t g m have 2: "variantsKey_svc cart_props_svc \<noteq> variantsKey_svc ?s2"
    by blast
  from 1 2 show ?thesis by blast
qed


text \<open>
  The claim as stated fails for namespaces that only differ. tsx variant: a write of
  the coordinator \<open>['cart']\<close> invalidates the variants query of the coordinator
  \<open>['cart', 'filters']\<close>, and the filters key of \<open>['cart']\<close> is the data key of
  \<open>['cart', 'filters', true]\<close> whose filters equal the cart's initial filters. Service
  variant: a write of the coordinator \<open>cart\<close> invalidates the data query of the
  coordinator \<open>cartfilters\<close>.
\<close>

theorem namespaces_collide_counterexample:
  "filtersKey cart_props \<noteq> filtersKey (cart_props\<lparr>filtersKey := [JStr ''cart'', JStr ''filters'']\<rparr>)
   \<and> cache shared_world (variantsKey (cart_props\<lparr>filtersKey := [JStr ''cart'', JStr ''filters'']\<rparr>))
       = Some (build_query (JArr []))
   \<and> cache (snd (setFilters cart_props page2 shared_world))
         (variantsKey (cart_props\<lparr>filtersKey := [JStr ''cart'', JStr ''filters'']\<rparr>))
       = Some ((build_query (JArr []))\<lparr>q_isInvalidated := True\<rparr>)
   \<and> filtersKey cart_props_svc \<noteq> filtersKey (cart_props_svc\<lparr>filtersKey := ''cartfilters''\<rparr>)
   \<and> cache shared_world (valuesKey_svc (cart_props_svc\<lparr>filtersKey := ''cartfilters''\<rparr>) page2)
       = Some (build_query (JArr []))
   \<and> cache (snd (setFilters_svc cart_props_svc page2 shared_world))
         (valuesKey_svc (cart_props_svc\<lparr>filtersKey := ''cartfilters''\<rparr>) page2)
       = Some ((build_query (JArr []))\<lparr>q_isInvalidated := True\<rparr>)
   \<and> filtersKey cart_props \<noteq> filtersKey (cart_props\<lparr>filtersKey := [JStr ''cart'', JStr ''filters'', JBool True]\<rparr>)
   \<and> filtersQueryKey cart_props (router shared_world)
       = valuesKey (cart_props\<lparr>filtersKey := [JStr ''cart'', JStr ''filters'', JBool True]\<rparr>) cart_initial"
proof -
  let ?K = "[JStr ''cart'', JStr ''filters'', JStr ''variants'']"
  let ?L = "[JStr ''cartfilters'', page2]"
  have m1: "partialMatchKey ?K (filtersPrefix cart_props)"
    by (rule prefix_partialMatchKey) (simp add: filtersPrefix_def cart_props_def)
  have m2: "partialMatchKey ?L (filtersPrefix_svc cart_props_svc)"
    by (rule prefix_partialMatchKey) (simp add: filtersPrefix_svc_def cart_props_svc_def)
  have r1: "setFiltersValues cart_props page2 = Inr page2"
    by (simp add: cart_props_def page2_def)
  have r2: "setFiltersValues cart_props_svc page2 = Inr page2"
    by (simp add: cart_props_svc_def page2_def)
  have c1: "cache (snd (setFilters cart_props page2 shared_world)) ?K
      = Some ((build_query (JArr []))\<lparr>q_isInvalidated := True\<rparr>)"
    by (simp add: setFilters_def mutate_def call_setFiltersValues_def setFilters_onSuccess_def r1
        invalidateQueries_cache m1) (simp add: shared_world_def)
  have c2: "cache (snd (setFilters_svc cart_props_svc page2 shared_world)) ?L
      = Some ((build_query (JArr []))\<lparr>q_isInvalidated := True\<rparr>)"
    by (simp add: setFilters_svc_def mutate_def call_setFiltersValues_def r2
        invalidateQueries_cache m2 handleSetFiltersInUrl_svc_def Let_def) (simp add: shared_world_def page2_def)
  have k: "variantsKey (cart_props\<lparr>filtersKey := [JStr ''cart'', JStr ''filters'']\<rparr>) = ?K"
    "valuesKey_svc (cart_props_svc\<lparr>filtersKey := ''cartfilters''\<rparr>) page2 = ?L"
    by (simp_all add: variantsKey_def valuesKey_svc_def)
  have o: "cache shared_world ?K = Some (build_query (JArr []))"
    "cache shared_world ?L = Some (build_query (JArr []))"
    by (simp_all add: shared_world_def page2_def)
  have e: "filtersQueryKey cart_props (router shared_world)
       = valuesKey (cart_props\<lparr>filtersKey := [JStr ''cart'', JStr ''filters'', JBool True]\<rparr>) cart_initial"
    by (simp add: filtersQueryKey_def valuesKey_def cart_props_def shared_world_def)
  have n: "filtersKey cart_props \<noteq> [JStr ''cart'', JStr ''filters'']"
    "filtersKey cart_props_svc \<noteq> ''cartfilters''"
    "filtersKey cart_props \<noteq> [JStr ''cart'', JStr ''filters'', JBool True]"
    by (simp_all add: cart_props_def cart_props_svc_def)
  from c1 c2 o e n show ?thesis by (simp add: k)
qed



subsection \<open>The query-string round trip\<close>

lemma nibbles: "(of_char c :: nat) div 16 < 16" "(of_char c :: nat) mod 16 < 16"
proof -
  have "(of_char c :: nat) < 16 * 16" by simp
  then show "(of_char c :: nat) div 16 < 16" by (rule less_mult_imp_div_less)
  show "(of_char c :: nat) mod 16 < 16" by simp
qed

lemma hex_value_hex_digit: "n < 16 \<Longrightarrow> hex_value (hex_digit n) = Some n"
proof -
  have "list_all (\<lambda>n. hex_value (hex_digit n) = Some n) [0..<16]" by code_simp
  then show "n < 16 \<Longrightarrow> hex_value (hex_digit n) = Some n" by (simp add: list_all_iff)
qed

lemma hex_digit_plain: "n < 16 \<Longrightarrow> \<not> separator (hex_digit n)"
proof -
  have "list_all (\<lambda>n. \<not> separator (hex_digit n)) [0..<16]" by code_simp
  then show "n < 16 \<Longrightarrow> \<not> separator (hex_digit n)" by (simp add: list_all_iff)
qed

lemma unreserved_plain: "unreserved c \<Longrightarrow> \<not> separator c \<and> c \<noteq> CHR ''%''"
  by (auto simp: unreserved_def separator_def)

lemma encode_char_plain: "x \<in> set (encode_char c) \<Longrightarrow> \<not> separator x"
proof -
  note d = nibbles(1)[of c] and m = nibbles(2)[of c]
    
  assume "x \<in> set (encode_char c)"
  then show ?thesis
    using hex_digit_plain[OF d] hex_digit_plain[OF m] unreserved_plain[of c]
    by (auto simp: encode_char_def separator_def split: if_splits)
qed

lemma encode_plain: "x \<in> set (encode s) \<Longrightarrow> \<not> separator x"
  by (auto simp: encode_def dest: encode_char_plain)

lemma decode_encode_char: "decode (encode_char c @ t) = c # decode t"
proof (cases "unreserved c")
  case True
  then show ?thesis using unreserved_plain[of c] by (simp add: encode_char_def)
next
  case False
  note d = nibbles(1)[of c] and m = nibbles(2)[of c]
  have "char_of (16 * ((of_char c :: nat) div 16) + of_char c mod 16) = c"
    by simp
  with False show ?thesis
    by (simp add: encode_char_def hex_value_hex_digit[OF d] hex_value_hex_digit[OF m])
qed

lemma decode_encode_append: "decode (encode s @ t) = s @ decode t"
  by (induction s) (simp_all add: encode_def decode_encode_char)

lemma decode_encode: "decode (encode s) = s"
  using decode_encode_append[of s "[]"] by simp


lemma split_on_plain: "c \<notin> set x \<Longrightarrow> split_on c (x @ c # rest) = x # split_on c rest"
  by (induction x) auto

lemma split_on_last: "c \<notin> set x \<Longrightarrow> split_on c x = [x]"
  by (induction x) auto

lemma split_on_join:
  "ps \<noteq> [] \<Longrightarrow> \<forall>p \<in> set ps. c \<notin> set p \<Longrightarrow> split_on c (join_with c ps) = ps"
proof (induction c ps rule: join_with.induct)
  case (1 c)
  then show ?case by simp
next
  case (2 c x)
  then show ?case by (simp add: split_on_last)
next
  case (3 c x y ys)
  then show ?case by (simp add: split_on_plain)
qed

lemma parse_param_empty: "parse_param [] acc = acc"
  by (simp add: parse_param_def)

lemma fold_split_join:
  assumes "\<forall>p \<in> set ps. CHR ''&'' \<notin> set p"
  shows "fold parse_param (split_on CHR ''&'' (join_with CHR ''&'' ps)) acc = fold parse_param ps acc"
proof (cases "ps = []")
  case True
  then show ?thesis by (simp add: parse_param_empty)
next
  case False
  then show ?thesis using assms by (simp add: split_on_join)
qed

lemma splitOnFirst_found:
  "c \<notin> set a \<Longrightarrow> splitOnFirst c (a @ c # b) = (a, Some b)"
  by (induction a) (auto simp: splitOnFirst_def)

lemma encode_no_sep:
  "CHR ''&'' \<notin> set (encode s)" "CHR ''='' \<notin> set (encode s)" "CHR ''+'' \<notin> set (encode s)"
  "CHR ''#'' \<notin> set (encode s)" "CHR ''?'' \<notin> set (encode s)"
  using encode_plain[of _ s] by (auto simp: separator_def)

lemma plus_free_map:
  "CHR ''+'' \<notin> set s \<Longrightarrow> map (\<lambda>c. if c = CHR ''+'' then CHR '' '' else c) s = s"
  by (induction s) auto

lemma parse_param_scalar:
  "parse_param (encode k @ ''='' @ encode t) acc = formatter k (JStr t) acc"
proof -
  let ?p = "encode k @ CHR ''='' # encode t"
  have "CHR ''+'' \<notin> set ?p" by (simp add: encode_no_sep)
  then have m: "map (\<lambda>c. if c = CHR ''+'' then CHR '' '' else c) ?p = ?p"
    by (rule plus_free_map)
  have s: "splitOnFirst CHR ''='' ?p = (encode k, Some (encode t))"
    by (rule splitOnFirst_found) (simp add: encode_no_sep)
  have "parse_param ?p acc = formatter k (JStr t) acc"
    unfolding parse_param_def m s by (simp add: decode_encode)
  then show ?thesis by simp
qed

lemma parse_param_bracket:
  "parse_param (encode k @ ''[]='' @ encode t) acc = formatter (k @ ''[]'') (JStr t) acc"
proof -
  let ?a = "encode k @ ''[]''"
  let ?p = "?a @ CHR ''='' # encode t"
  have "CHR ''+'' \<notin> set ?p" by (simp add: encode_no_sep)
  then have m: "map (\<lambda>c. if c = CHR ''+'' then CHR '' '' else c) ?p = ?p"
    by (rule plus_free_map)
  have s: "splitOnFirst CHR ''='' ?p = (?a, Some (encode t))"
    by (rule splitOnFirst_found) (simp add: encode_no_sep)
  have d: "decode ?a = k @ ''[]''"
    by (simp add: decode_encode_append)
  have "parse_param ?p acc = formatter (k @ ''[]'') (JStr t) acc"
    unfolding parse_param_def m s by (simp add: decode_encode d)
  then show ?thesis by simp
qed

lemma formatter_plain:
  "\<not> ends_with_brackets k \<Longrightarrow> formatter k v acc = AList.update k v acc"
  by (simp add: formatter_def)

lemma formatter_bracket:
  "formatter (k @ ''[]'') v acc = AList.update k (JArr (items_so_far acc k @ [v])) acc"
  by (simp add: formatter_def ends_with_brackets_def Let_def items_so_far_def
      split: option.splits jsval.splits)


lemma fold_bracket_params:
  "ys \<noteq> [] \<Longrightarrow>
     map_of (fold parse_param (map (\<lambda>x. encode k @ ''[]='' @ encode (to_string x)) ys) acc)
       = (map_of acc)(k \<mapsto> JArr (items_so_far acc k @ map (\<lambda>x. JStr (to_string x)) ys))"
proof (induction ys arbitrary: acc)
  case Nil
  then show ?case by simp
next
  case (Cons y ys)
  let ?acc1 = "AList.update k (JArr (items_so_far acc k @ [JStr (to_string y)])) acc"
  have s: "parse_param (encode k @ ''[]='' @ encode (to_string y)) acc = ?acc1"
    by (simp only: parse_param_bracket formatter_bracket)
  have i: "items_so_far ?acc1 k = items_so_far acc k @ [JStr (to_string y)]"
    by (simp add: items_so_far_def update_conv')
  show ?case
  proof (cases "ys = []")
    case True
    then show ?thesis using s by (simp add: update_conv')
  next
    case False
    have "map_of (fold parse_param (map (\<lambda>x. encode k @ ''[]='' @ encode (to_string x)) (y # ys)) acc)
        = map_of (fold parse_param (map (\<lambda>x. encode k @ ''[]='' @ encode (to_string x)) ys) ?acc1)"
      by (simp only: list.map fold_simps s)
    also have "\<dots> = (map_of ?acc1)(k \<mapsto> JArr (items_so_far ?acc1 k @ map (\<lambda>x. JStr (to_string x)) ys))"
      by (rule Cons.IH[OF False])
    also have "\<dots> = (map_of acc)(k \<mapsto> JArr (items_so_far acc k @ map (\<lambda>x. JStr (to_string x)) (y # ys)))"
      by (rule ext) (simp add: i update_conv')
    finally show ?thesis .
  qed
qed

lemma fold_field_params:
  assumes "\<not> ends_with_brackets k" and "map_of acc k = None" and "\<not> skipped v"
  shows "map_of (fold parse_param (field_params (k, v)) acc)
       = (case parsed_field v of None \<Rightarrow> map_of acc | Some pv \<Rightarrow> (map_of acc)(k \<mapsto> pv))"
proof (cases "\<exists>xs. v = JArr xs")
  case True
  then obtain xs where v: "v = JArr xs" by blast
  let ?ys = "filter (\<lambda>x. \<not> skipped x) xs"
  show ?thesis
  proof (cases "?ys = []")
    case True
    then show ?thesis using assms(3) by (simp add: v field_params_def parsed_field_def)
  next
    case False
    have "items_so_far acc k = []" using assms(2) by (simp add: items_so_far_def)
    with fold_bracket_params[OF False, of k acc] False assms(3) show ?thesis
      by (simp add: v field_params_def parsed_field_def)
  qed
next
  case False
  then have f: "field_params (k, v) = [encode k @ ''='' @ encode (to_string v)]"
    by (cases v) (simp_all add: field_params_def)
  from False assms(3) have p: "parsed_field v = Some (JStr (to_string v))"
    by (cases v) (simp_all add: parsed_field_def)
  show ?thesis
    unfolding f p
    by (simp only: fold_simps parse_param_scalar formatter_plain[OF assms(1)] update_conv' option.case)
qed

lemma as_parsed_keys: "fst ` set (as_parsed fs) \<subseteq> fst ` set fs"
  by (force simp: as_parsed_def split: option.splits)

lemma fold_fields:
  assumes "distinct (map fst fs)"
    and "\<forall>k \<in> fst ` set fs. \<not> ends_with_brackets k \<and> map_of acc k = None"
  shows "map_of (fold parse_param (concat (map field_params (restricted fs))) acc)
       = map_of acc ++ map_of (as_parsed fs)"
  using assms
proof (induction fs arbitrary: acc)
  case Nil
  then show ?case by (simp add: restricted_def as_parsed_def)
next
  case (Cons kv fs)
  obtain k v where kv: "kv = (k, v)" by (cases kv)
  from Cons.prems kv have k: "\<not> ends_with_brackets k" "map_of acc k = None"
    and d: "distinct (map fst fs)" and kn: "k \<notin> fst ` set fs"
    and r: "\<forall>k' \<in> fst ` set fs. \<not> ends_with_brackets k' \<and> map_of acc k' = None"
    by auto
  show ?case
  proof (cases "skipped v")
    case True
    have "as_parsed (kv # fs) = as_parsed fs"
      using True by (simp add: as_parsed_def kv parsed_field_def)
    moreover have "restricted (kv # fs) = restricted fs"
      using True by (simp add: restricted_def kv)
    ultimately show ?thesis using Cons.IH[OF d r] by simp
  next
    case False
    let ?acc1 = "fold parse_param (field_params (k, v)) acc"
    have m1: "map_of ?acc1 = (case parsed_field v of None \<Rightarrow> map_of acc | Some pv \<Rightarrow> (map_of acc)(k \<mapsto> pv))"
      by (rule fold_field_params[OF k False])
    have r1: "\<forall>k' \<in> fst ` set fs. \<not> ends_with_brackets k' \<and> map_of ?acc1 k' = None"
      using r kn by (auto simp: m1 split: option.splits)
    have "restricted (kv # fs) = kv # restricted fs"
      using False by (simp add: restricted_def kv)
    then have "map_of (fold parse_param (concat (map field_params (restricted (kv # fs)))) acc)
        = map_of (fold parse_param (concat (map field_params (restricted fs))) ?acc1)"
      by (simp add: kv)
    also have "\<dots> = map_of ?acc1 ++ map_of (as_parsed fs)"
      by (rule Cons.IH[OF d r1])
    also have "\<dots> = map_of acc ++ map_of (as_parsed (kv # fs))"
    proof (cases "parsed_field v")
      case None
      then show ?thesis by (simp add: m1 as_parsed_def kv)
    next
      case (Some pv)
      have "k \<notin> fst ` set (as_parsed fs)" using kn as_parsed_keys[of fs] by blast
      then have n: "map_of (as_parsed fs) k = None" by (simp add: map_of_eq_None_iff)
      have a: "as_parsed (kv # fs) = (k, pv) # as_parsed fs"
        by (simp add: as_parsed_def kv Some)
      show ?thesis
        unfolding m1 Some a
        by (rule ext) (simp add: map_add_def n split: option.splits)
    qed
    finally show ?thesis .
  qed
qed


lemma join_with_chars:
  "x \<in> set (join_with c ps) \<Longrightarrow> x = c \<or> (\<exists>p \<in> set ps. x \<in> set p)"
  by (induction c ps rule: join_with.induct) auto

lemma field_params_chars:
  "p \<in> set (field_params kv) \<Longrightarrow> x \<in> set p \<Longrightarrow>
     (\<exists>a. x \<in> set (encode a)) \<or> x = CHR ''['' \<or> x = CHR '']'' \<or> x = CHR ''=''"
  by (cases "snd kv") (auto simp: field_params_def)

lemma params_no_amp:
  "\<forall>p \<in> set (concat (map field_params fs)). CHR ''&'' \<notin> set p"
proof (intro ballI notI)
  fix p assume "p \<in> set (concat (map field_params fs))" and x: "CHR ''&'' \<in> set p"
  then obtain kv where "p \<in> set (field_params kv)" by auto
  from field_params_chars[OF this x] show False by (auto simp: encode_no_sep)
qed

lemma stringify_no_hash: "CHR ''#'' \<notin> set (stringify fs)"
proof
  assume "CHR ''#'' \<in> set (stringify fs)"
  then obtain p kv where p: "p \<in> set (field_params kv)" and x: "CHR ''#'' \<in> set p"
    unfolding stringify_def by (auto dest!: join_with_chars)
  from field_params_chars[OF p x] show False by (auto simp: encode_no_sep)
qed

lemma parse_stringify:
  assumes "distinct (map fst fs)" and "\<forall>k \<in> fst ` set fs. \<not> ends_with_brackets k"
  shows "map_of (parse (stringify fs)) = map_of (as_parsed fs)"
proof -
  have "map_of (parse (stringify fs))
      = map_of (fold parse_param (concat (map field_params (restricted fs))) [])"
    unfolding parse_def stringify_def restricted_def[symmetric]
    by (simp only: fold_split_join[OF params_no_amp])
  also have "\<dots> = map_of [] ++ map_of (as_parsed fs)"
    using assms by (intro fold_fields) simp_all
  finally show ?thesis by simp
qed

lemma textual_items:
  "list_all (\<lambda>x. case x of JStr s \<Rightarrow> s \<noteq> [] | _ \<Rightarrow> False) xs \<Longrightarrow>
     filter (\<lambda>x. \<not> skipped x) xs = xs \<and> map (\<lambda>x. JStr (to_string x)) xs = xs"
  by (induction xs) (auto simp: skipped_def split: jsval.splits)

lemma parsed_field_textual:
  "\<not> skipped v \<Longrightarrow> textual v \<Longrightarrow> parsed_field v = Some v"
  by (cases v) (auto simp: parsed_field_def textual_def dest: textual_items)

lemma as_parsed_textual:
  "\<forall>v \<in> snd ` set (restricted fs). textual v \<Longrightarrow> as_parsed fs = restricted fs"
proof (induction fs)
  case Nil
  then show ?case by (simp add: as_parsed_def restricted_def)
next
  case (Cons kv fs)
  show ?case
  proof (cases "skipped (snd kv)")
    case True
    with Cons show ?thesis by (simp add: as_parsed_def restricted_def parsed_field_def)
  next
    case False
    with Cons.prems have "textual (snd kv)" by (simp add: restricted_def)
    with False have "parsed_field (snd kv) = Some (snd kv)" by (rule parsed_field_textual)
    moreover from Cons False have "as_parsed fs = restricted fs" by (simp add: restricted_def)
    ultimately show ?thesis using False by (simp add: as_parsed_def restricted_def)
  qed
qed

lemma parseUrl_url_plain: "CHR ''?'' \<notin> set (parseUrl_url u)" "CHR ''#'' \<notin> set (parseUrl_url u)"
proof -
  show "CHR ''?'' \<notin> set (parseUrl_url u)"
    unfolding parseUrl_url_def by (auto dest: set_takeWhileD)
  have "CHR ''#'' \<notin> set (removeHash u)"
    unfolding removeHash_def by (auto dest: set_takeWhileD)
  then show "CHR ''#'' \<notin> set (parseUrl_url u)"
    unfolding parseUrl_url_def by (auto dest: set_takeWhileD)
qed

lemma takeWhile_all: "c \<notin> set s \<Longrightarrow> takeWhile (\<lambda>x. x \<noteq> c) s = s"
  by (induction s) auto

lemma parseUrl_query_replaced:
  "parseUrl_query (parseUrl_url path @ (if stringify fs \<noteq> [] then CHR ''?'' # stringify fs else []))
     = parse (stringify fs)"
proof (cases "stringify fs = []")
  case True
  have "removeHash (parseUrl_url path) = parseUrl_url path"
    unfolding removeHash_def by (rule takeWhile_all) (rule parseUrl_url_plain)
  then show ?thesis
    using True parseUrl_url_plain(1)[of path] by (simp add: parseUrl_query_def extract_query_def)
next
  case False
  let ?u = "parseUrl_url path @ CHR ''?'' # stringify fs"
  have "CHR ''#'' \<notin> set ?u"
    using parseUrl_url_plain(2)[of path] stringify_no_hash[of fs] by simp
  then have h: "removeHash ?u = ?u"
    unfolding removeHash_def by (rule takeWhile_all)
  have "extract_query ?u = stringify fs"
    unfolding extract_query_def h
    using splitOnFirst_found[OF parseUrl_url_plain(1), of path "stringify fs"]
    by (simp add: splitOnFirst_def)
  then show ?thesis using False by (simp add: parseUrl_query_def)
qed


text \<open>
  Claim C5, as amended. For an object whose field names are distinct (as an object's
  are) and do not end in \<open>[]\<close>, parsing the encoded object gives the fields the codec
  does not skip, each as text; when the fields that are not skipped are strings or
  non-empty arrays of non-empty strings, that is the object restricted to its fields
  that are not null, undefined or the empty string. The same is parsed back from the
  URL the reflection navigates to.
\<close>

theorem query_string_round_trip:
  assumes "distinct (map fst fs)" and "\<forall>k \<in> fst ` set fs. \<not> ends_with_brackets k"
  shows "map_of (parse (stringify fs)) = map_of (as_parsed fs)
       \<and> ((\<forall>v \<in> snd ` set (restricted fs). textual v) \<longrightarrow>
            map_of (parse (stringify fs)) = map_of (restricted fs))
       \<and> parseUrl_query
            (parseUrl_url path @ (if stringify fs \<noteq> [] then CHR ''?'' # stringify fs else []))
           = parse (stringify fs)"
  using parse_stringify[OF assms] as_parsed_textual[of fs] parseUrl_query_replaced[of path fs]
  by simp


theorem query_string_round_trip_witness:
  "map_of (parse (stringify tags_filters))
     = map_of [(''tags'', JArr [JStr ''a&b'', JStr ''c d'']), (''q'', JStr ''x=y+z'')]"
proof -
  have d: "distinct (map fst tags_filters)"
    by (simp add: tags_filters_def)
  have e: "\<forall>k \<in> fst ` set tags_filters. \<not> ends_with_brackets k"
    by (simp add: tags_filters_def ends_with_brackets_def)
  have t: "\<forall>v \<in> snd ` set (restricted tags_filters). textual v"
    by (simp add: tags_filters_def restricted_def skipped_def textual_def)
  from query_string_round_trip[OF d e, of "''/cart''"] t
  have "map_of (parse (stringify tags_filters)) = map_of (restricted tags_filters)"
    by blast
  then show ?thesis
    by (simp add: restricted_def tags_filters_def skipped_def)
qed

text \<open>
  The claim as stated fails for a number: the cart's initial filters are encoded as
  \<open>page=1&perPage=50&sortDirection=asc\<close>, and parsing gives the page as the string
  \<open>1\<close>, where the restricted object has the number 1.
\<close>

theorem query_string_round_trip_counterexample:
  "map_of (parse (stringify (own_fields cart_initial))) ''page'' = Some (JStr ''1'')
   \<and> map_of (restricted (own_fields cart_initial)) ''page'' = Some (JNum 1)"
  by code_simp


end
